theory Spec2Isabelle
  imports Main
begin

section \<open>The editing engine of Writer: data model\<close>

text \<open>
  The engine is the script block that \<^verbatim>\<open>get_editor_html\<close> of \<^verbatim>\<open>src/writer.py\<close>
  loads into the web view.  Its global variables become the fields of one record, every
  function takes the record and returns the new one.  Strings are lists of characters
  (one \<^typ>\<open>char\<close> per code unit), counters that the script compares with \<open>-1\<close> are
  integers, lengths and offsets that come from \<^verbatim>\<open>.length\<close> are naturals.
\<close>

subsection \<open>The document tree\<close>

text \<open>
  A node of the editable tree is a text node or an element with a tag name, attributes and
  children.  A node is referred to by its path: the child indices that lead to it from the
  \<^verbatim>\<open>#editor\<close> element, whose own path is empty.
\<close>

datatype node = Text string | Element string "(string \<times> string) list" "node list"

type_synonym path = "nat list"

fun textContent :: "node \<Rightarrow> string"
  and textContents :: "node list \<Rightarrow> string" where
  "textContent (Text s) = s"
| "textContent (Element t a cs) = textContents cs"
| "textContents [] = []"
| "textContents (n # ns) = textContent n @ textContents ns"

text \<open>
  \<^verbatim>\<open>document.createTreeWalker(root, NodeFilter.SHOW_TEXT)\<close>: the text nodes below the
  root in document order, each with its path and its data.
\<close>

fun textNodes :: "path \<Rightarrow> node \<Rightarrow> (path \<times> string) list"
  and textNodesFrom :: "path \<Rightarrow> nat \<Rightarrow> node list \<Rightarrow> (path \<times> string) list" where
  "textNodes p (Text s) = [(p, s)]"
| "textNodes p (Element t a cs) = textNodesFrom p 0 cs"
| "textNodesFrom p i [] = []"
| "textNodesFrom p i (n # ns) = textNodes (p @ [i]) n @ textNodesFrom p (Suc i) ns"

definition walker :: "node list \<Rightarrow> (path \<times> string) list" where
  "walker root = textNodesFrom [] 0 root"

subsection \<open>Selections\<close>

text \<open>
  The live selection of the browser is a range between two boundary points, each a
  container node and an offset into it (characters of a text node, children of an element).
  \<^verbatim>\<open>saveSelection\<close> turns it into character offsets.
\<close>

record range =
  startContainer :: path
  startOffset :: nat
  endContainer :: path
  endOffset :: nat

record LogicalSelection =
  sel_start :: nat
  sel_end :: nat
  sel_collapsed :: bool

definition collapsed :: "range \<Rightarrow> bool" where
  "collapsed r \<longleftrightarrow> startContainer r = endContainer r \<and> startOffset r = endOffset r"

text \<open>
  The length of \<^verbatim>\<open>tempRange.toString()\<close> for the range from the start of the root
  to a boundary point: the text of the children before the point, and inside a text node
  the characters before the offset.
\<close>

fun lengthBefore :: "node list \<Rightarrow> path \<Rightarrow> nat \<Rightarrow> nat" where
  "lengthBefore cs [] off = length (textContents (take off cs))"
| "lengthBefore cs (i # p) off =
     (if i < length cs then
        length (textContents (take i cs)) +
        (case cs ! i of
           Text s \<Rightarrow> min off (length s)
         | Element t a ks \<Rightarrow> lengthBefore ks p off)
      else length (textContents cs))"

subsection \<open>History entries, messages to the host and deferred calls\<close>

record historyEntry =
  content :: string
  selection :: "LogicalSelection option"
  timestamp :: nat

text \<open>The handlers of \<^verbatim>\<open>window.webkit.messageHandlers\<close> that the script posts to.\<close>

datatype message = contentChanged | tableClicked | tablesDeactivated | tableDeleted

text \<open>
  A call handed to \<^verbatim>\<open>setTimeout\<close> is kept with its delay until the event loop runs
  it; the closures of the script are the constructors below.
\<close>

datatype deferred =
    RestoreSelection LogicalSelection
  | ResetUndoRedoFlag
  | CreateHistoryEntry
  | SearchAgain string
  | WrapUnwrappedText

record editor =
  childNodes :: "node list"
  liveSelection :: "range option"
  searchResults :: "path list"
  searchIndex :: int
  currentSearchText :: string
  editorHistory :: "historyEntry list"
  historyIndex :: int
  isPerformingUndoRedo :: bool
  posted :: "message list"
  timers :: "(nat \<times> deferred) list"
  now :: nat

definition postMessage :: "message \<Rightarrow> editor \<Rightarrow> editor" where
  "postMessage m st = st\<lparr>posted := posted st @ [m]\<rparr>"

definition setTimeout :: "deferred \<Rightarrow> nat \<Rightarrow> editor \<Rightarrow> editor" where
  "setTimeout f ms st = st\<lparr>timers := timers st @ [(ms, f)]\<rparr>"

subsection \<open>Strings\<close>

text \<open>\<^verbatim>\<open>String.prototype.startsWith\<close>, \<^verbatim>\<open>includes\<close> and \<^verbatim>\<open>trim\<close>.\<close>

fun startsWith :: "string \<Rightarrow> string \<Rightarrow> bool" where
  "startsWith s [] = True"
| "startsWith [] (p # ps) = False"
| "startsWith (c # cs) (p # ps) = (c = p \<and> startsWith cs ps)"

fun str_includes :: "string \<Rightarrow> string \<Rightarrow> bool" where
  "str_includes [] t = (t = [])"
| "str_includes (c # cs) t = (startsWith (c # cs) t \<or> str_includes cs t)"

definition isWhiteSpace :: "char \<Rightarrow> bool" where
  "isWhiteSpace c \<longleftrightarrow> c \<in> {CHR 0x09, CHR 0x0A, CHR 0x0B, CHR 0x0C, CHR 0x0D, CHR 0x20, CHR 0xA0}"

definition trim :: "string \<Rightarrow> string" where
  "trim s = rev (dropWhile isWhiteSpace (rev (dropWhile isWhiteSpace s)))"

subsection \<open>The browser's \<^verbatim>\<open>innerHTML\<close>\<close>

text \<open>
  Reading \<^verbatim>\<open>innerHTML\<close> serialises the children of the element; text is escaped, void
  elements have no end tag.
\<close>

fun escapeText :: "string \<Rightarrow> string" where
  "escapeText [] = []"
| "escapeText (c # cs) =
     (if c = CHR ''&'' then ''&amp;''
      else if c = CHR 0xA0 then ''&nbsp;''
      else if c = CHR ''<'' then ''&lt;''
      else if c = CHR ''>'' then ''&gt;''
      else [c]) @ escapeText cs"

fun escapeAttr :: "string \<Rightarrow> string" where
  "escapeAttr [] = []"
| "escapeAttr (c # cs) =
     (if c = CHR ''&'' then ''&amp;''
      else if c = CHR 0xA0 then ''&nbsp;''
      else if c = CHR 0x22 then ''&quot;''
      else [c]) @ escapeAttr cs"

definition voidElements :: "string list" where
  "voidElements = [''area'', ''base'', ''br'', ''col'', ''embed'', ''hr'', ''img'', ''input'',
     ''link'', ''meta'', ''source'', ''track'', ''wbr'']"

fun serializeAttrs :: "(string \<times> string) list \<Rightarrow> string" where
  "serializeAttrs [] = []"
| "serializeAttrs ((k, v) # as) = '' '' @ k @ ''='' @ [CHR 0x22] @ escapeAttr v @ [CHR 0x22] @ serializeAttrs as"

fun serializeNode :: "node \<Rightarrow> string"
  and serialize :: "node list \<Rightarrow> string" where
  "serializeNode (Text s) = escapeText s"
| "serializeNode (Element t a cs) =
     ''<'' @ t @ serializeAttrs a @ ''>'' @
     (if t \<in> set voidElements then [] else serialize cs @ ''</'' @ t @ ''>'')"
| "serialize [] = []"
| "serialize (n # ns) = serializeNode n @ serialize ns"

text \<open>
  Assigning \<^verbatim>\<open>innerHTML\<close> parses the markup as a fragment: a tokenizer for tags,
  attributes, text and the character references that the serialiser writes, and a tree
  builder.
\<close>

fun decodeEntities :: "string \<Rightarrow> string" where
  "decodeEntities [] = []"
| "decodeEntities (c # cs) =
     (if c = CHR ''&'' \<and> startsWith cs ''amp;'' then CHR ''&'' # decodeEntities (drop 4 cs)
      else if c = CHR ''&'' \<and> startsWith cs ''nbsp;'' then CHR 0xA0 # decodeEntities (drop 5 cs)
      else if c = CHR ''&'' \<and> startsWith cs ''lt;'' then CHR ''<'' # decodeEntities (drop 3 cs)
      else if c = CHR ''&'' \<and> startsWith cs ''gt;'' then CHR ''>'' # decodeEntities (drop 3 cs)
      else if c = CHR ''&'' \<and> startsWith cs ''quot;'' then CHR 0x22 # decodeEntities (drop 5 cs)
      else c # decodeEntities cs)"

datatype token = TText string | TStart string "(string \<times> string) list" | TEnd string

datatype tokenizerState =
    Data string
  | TagOpen
  | EndTagOpen
  | TagName string
  | EndTagName string
  | BeforeAttributeName string "(string \<times> string) list"
  | AttributeName string "(string \<times> string) list" string
  | BeforeAttributeValue string "(string \<times> string) list" string
  | AttributeValueQuoted string "(string \<times> string) list" string string
  | AttributeValueUnquoted string "(string \<times> string) list" string string

definition isAlpha :: "char \<Rightarrow> bool" where
  "isAlpha c \<longleftrightarrow> (97 \<le> (of_char c :: nat) \<and> (of_char c :: nat) \<le> 122) \<or>
     (65 \<le> (of_char c :: nat) \<and> (of_char c :: nat) \<le> 90)"

definition toLower :: "char \<Rightarrow> char" where
  "toLower c = (if 65 \<le> (of_char c :: nat) \<and> (of_char c :: nat) \<le> 90
     then char_of (of_char c + (32::nat)) else c)"

definition emitText :: "string \<Rightarrow> token list" where
  "emitText txt = (if txt = [] then [] else [TText (decodeEntities txt)])"

fun tokenize :: "tokenizerState \<Rightarrow> string \<Rightarrow> token list" where
  "tokenize (Data txt) [] = emitText txt"
| "tokenize (Data txt) (c # cs) =
     (if c = CHR ''<'' then emitText txt @ tokenize TagOpen cs
      else tokenize (Data (txt @ [c])) cs)"
| "tokenize TagOpen [] = [TText ''<'']"
| "tokenize TagOpen (c # cs) =
     (if c = CHR ''/'' then tokenize EndTagOpen cs
      else if isAlpha c then tokenize (TagName [toLower c]) cs
      else if c = CHR ''<'' then TText ''<'' # tokenize TagOpen cs
      else tokenize (Data (''<'' @ [c])) cs)"
| "tokenize EndTagOpen [] = [TText ''</'']"
| "tokenize EndTagOpen (c # cs) =
     (if isAlpha c then tokenize (EndTagName [toLower c]) cs
      else if c = CHR ''>'' then tokenize (Data []) cs
      else tokenize EndTagOpen cs)"
| "tokenize (TagName n) [] = []"
| "tokenize (TagName n) (c # cs) =
     (if c = CHR ''>'' then TStart n [] # tokenize (Data []) cs
      else if isWhiteSpace c \<or> c = CHR ''/'' then tokenize (BeforeAttributeName n []) cs
      else tokenize (TagName (n @ [toLower c])) cs)"
| "tokenize (EndTagName n) [] = []"
| "tokenize (EndTagName n) (c # cs) =
     (if c = CHR ''>'' then TEnd n # tokenize (Data []) cs
      else if isWhiteSpace c \<or> c = CHR ''/'' then tokenize (EndTagName n) cs
      else tokenize (EndTagName (n @ [toLower c])) cs)"
| "tokenize (BeforeAttributeName n as) [] = []"
| "tokenize (BeforeAttributeName n as) (c # cs) =
     (if c = CHR ''>'' then TStart n as # tokenize (Data []) cs
      else if isWhiteSpace c \<or> c = CHR ''/'' then tokenize (BeforeAttributeName n as) cs
      else tokenize (AttributeName n as [toLower c]) cs)"
| "tokenize (AttributeName n as k) [] = []"
| "tokenize (AttributeName n as k) (c # cs) =
     (if c = CHR ''>'' then TStart n (as @ [(k, [])]) # tokenize (Data []) cs
      else if c = CHR ''='' then tokenize (BeforeAttributeValue n as k) cs
      else if isWhiteSpace c \<or> c = CHR ''/'' then tokenize (BeforeAttributeName n (as @ [(k, [])])) cs
      else tokenize (AttributeName n as (k @ [toLower c])) cs)"
| "tokenize (BeforeAttributeValue n as k) [] = []"
| "tokenize (BeforeAttributeValue n as k) (c # cs) =
     (if c = CHR 0x22 then tokenize (AttributeValueQuoted n as k []) cs
      else if c = CHR ''>'' then TStart n (as @ [(k, [])]) # tokenize (Data []) cs
      else if isWhiteSpace c then tokenize (BeforeAttributeValue n as k) cs
      else tokenize (AttributeValueUnquoted n as k [c]) cs)"
| "tokenize (AttributeValueQuoted n as k v) [] = []"
| "tokenize (AttributeValueQuoted n as k v) (c # cs) =
     (if c = CHR 0x22 then tokenize (BeforeAttributeName n (as @ [(k, decodeEntities v)])) cs
      else tokenize (AttributeValueQuoted n as k (v @ [c])) cs)"
| "tokenize (AttributeValueUnquoted n as k v) [] = []"
| "tokenize (AttributeValueUnquoted n as k v) (c # cs) =
     (if c = CHR ''>'' then TStart n (as @ [(k, decodeEntities v)]) # tokenize (Data []) cs
      else if isWhiteSpace c then tokenize (BeforeAttributeName n (as @ [(k, decodeEntities v)])) cs
      else tokenize (AttributeValueUnquoted n as k (v @ [c])) cs)"

definition isAsciiSpace :: "char \<Rightarrow> bool" where
  "isAsciiSpace c \<longleftrightarrow> c \<in> {CHR 0x09, CHR 0x0A, CHR 0x0C, CHR 0x0D, CHR 0x20}"

text \<open>
  The tree builder.  The stack of open elements is kept innermost first: each frame is an
  element under construction with the children it has so far and a mark that says
  whether the element was foster-parented when it was opened.  The nodes that are
  already children of the element whose \<^verbatim>\<open>innerHTML\<close> is assigned are kept beside the
  stack.  The element is the \<^verbatim>\<open>div\<close> with the id \<^verbatim>\<open>editor\<close>, so the builder starts in the
  insertion mode "in body".

  Of the tree-construction rules of the HTML parser the builder has: text appended to a
  preceding text node; void elements; a \<^verbatim>\<open>p\<close> (and an \<^verbatim>\<open>li\<close>) closed by the start tag
  of the next block; an end tag that closes the elements up to the one it names when
  that one is in scope and is dropped otherwise; \<^verbatim>\<open></p>\<close> without an open \<^verbatim>\<open>p\<close> and
  \<^verbatim>\<open></br>\<close>; inside a table the implied \<^verbatim>\<open>tbody\<close>, \<^verbatim>\<open>tr\<close> and \<^verbatim>\<open>colgroup\<close>, the
  closing of the open cell, row or section by the next one, and foster parenting: a start
  tag that is no part of the table structure, and text that is not white space, seen
  while the current node is a \<^verbatim>\<open>table\<close>, \<^verbatim>\<open>tbody\<close>, \<^verbatim>\<open>thead\<close>, \<^verbatim>\<open>tfoot\<close> or \<^verbatim>\<open>tr\<close>, is
  inserted in the parent of the table, in front of the table.  Table structure tags
  outside a table are dropped.  Not modelled are comments and doctypes, the elements
  whose content is raw text, the list of active formatting elements (an end tag of a
  formatting element closes up to it as any other end tag does), \<^verbatim>\<open>select\<close>, \<^verbatim>\<open>form\<close>,
  \<^verbatim>\<open>dd\<close> and \<^verbatim>\<open>dt\<close>, nested headings and foreign content.
\<close>

type_synonym frame = "string \<times> (string \<times> string) list \<times> node list \<times> bool"

type_synonym treeBuilder = "frame list \<times> node list"

definition tableStructure :: "string list" where
  "tableStructure = [''caption'', ''colgroup'', ''col'', ''tbody'', ''thead'', ''tfoot'',
     ''tr'', ''td'', ''th'']"

definition tableContext :: "string list" where
  "tableContext = [''table'', ''tbody'', ''thead'', ''tfoot'', ''tr'']"

definition scopeMarkers :: "string list" where
  "scopeMarkers = [''applet'', ''caption'', ''html'', ''table'', ''td'', ''th'', ''marquee'',
     ''object'', ''template'']"

definition tableScope :: "string list" where
  "tableScope = [''html'', ''table'', ''template'']"

definition closesP :: "string list" where
  "closesP = [''address'', ''article'', ''aside'', ''blockquote'', ''center'', ''details'',
     ''dialog'', ''dir'', ''div'', ''dl'', ''fieldset'', ''figcaption'', ''figure'', ''footer'',
     ''header'', ''hgroup'', ''main'', ''menu'', ''nav'', ''ol'', ''p'', ''search'', ''section'',
     ''summary'', ''ul'', ''h1'', ''h2'', ''h3'', ''h4'', ''h5'', ''h6'', ''pre'', ''listing'',
     ''form'', ''li'', ''table'', ''hr'']"

definition specialElements :: "string list" where
  "specialElements = [''address'', ''applet'', ''area'', ''article'', ''aside'', ''base'',
     ''basefont'', ''bgsound'', ''blockquote'', ''body'', ''br'', ''button'', ''caption'',
     ''center'', ''col'', ''colgroup'', ''dd'', ''details'', ''dir'', ''div'', ''dl'', ''dt'',
     ''embed'', ''fieldset'', ''figcaption'', ''figure'', ''footer'', ''form'', ''frame'',
     ''frameset'', ''h1'', ''h2'', ''h3'', ''h4'', ''h5'', ''h6'', ''head'', ''header'',
     ''hgroup'', ''hr'', ''html'', ''iframe'', ''img'', ''input'', ''keygen'', ''li'', ''link'',
     ''listing'', ''main'', ''marquee'', ''menu'', ''meta'', ''nav'', ''noembed'', ''noframes'',
     ''noscript'', ''object'', ''ol'', ''p'', ''param'', ''plaintext'', ''pre'', ''script'',
     ''search'', ''section'', ''select'', ''source'', ''style'', ''summary'', ''table'',
     ''tbody'', ''td'', ''template'', ''textarea'', ''tfoot'', ''th'', ''thead'', ''title'',
     ''tr'', ''track'', ''ul'', ''wbr'', ''xmp'']"

fun appendText :: "string \<Rightarrow> node list \<Rightarrow> node list" where
  "appendText s [] = [Text s]"
| "appendText s [Text t] = [Text (t @ s)]"
| "appendText s [n] = [n, Text s]"
| "appendText s (n # ns) = n # appendText s ns"

definition appendNode :: "node \<Rightarrow> node list \<Rightarrow> node list" where
  "appendNode n cs = cs @ [n]"

text \<open>
  The place where a node is inserted: the current node, or the element itself when no
  element is open; with foster parenting the parent of the innermost open table, where
  the node comes after what that parent has so far and so in front of the table.
\<close>

fun insertAtCurrent :: "(node list \<Rightarrow> node list) \<Rightarrow> treeBuilder \<Rightarrow> treeBuilder" where
  "insertAtCurrent g ([], root) = ([], g root)"
| "insertAtCurrent g ((t, a, cs, fo) # st, root) = ((t, a, g cs, fo) # st, root)"

fun insertBeforeTable :: "(node list \<Rightarrow> node list) \<Rightarrow> frame list \<Rightarrow> node list \<Rightarrow> treeBuilder" where
  "insertBeforeTable g [] root = ([], g root)"
| "insertBeforeTable g (f # st) root =
     (case (if fst f = ''table'' then insertAtCurrent g (st, root)
            else insertBeforeTable g st root) of
        (st', root') \<Rightarrow> (f # st', root'))"

definition openTags :: "treeBuilder \<Rightarrow> string list" where
  "openTags c = map fst (fst c)"

definition insertFostered :: "(node list \<Rightarrow> node list) \<Rightarrow> treeBuilder \<Rightarrow> treeBuilder" where
  "insertFostered g c =
     (if ''table'' \<in> set (openTags c) then insertBeforeTable g (fst c) (snd c)
      else insertAtCurrent g c)"

definition currentIs :: "string list \<Rightarrow> treeBuilder \<Rightarrow> bool" where
  "currentIs ns c = (case fst c of [] \<Rightarrow> False | f # st \<Rightarrow> fst f \<in> set ns)"

definition fostering :: "treeBuilder \<Rightarrow> bool" where
  "fostering c = currentIs tableContext c"

definition insertNode :: "(node list \<Rightarrow> node list) \<Rightarrow> treeBuilder \<Rightarrow> treeBuilder" where
  "insertNode g c = (if fostering c then insertFostered g c else insertAtCurrent g c)"

text \<open>Popping the current node makes it a child of the element it was inserted in.\<close>

fun pop :: "treeBuilder \<Rightarrow> treeBuilder" where
  "pop ([], root) = ([], root)"
| "pop ((t, a, cs, fo) # st, root) =
     (if fo then insertFostered (appendNode (Element t a cs)) (st, root)
      else insertAtCurrent (appendNode (Element t a cs)) (st, root))"

fun popN :: "nat \<Rightarrow> treeBuilder \<Rightarrow> treeBuilder" where
  "popN 0 c = c"
| "popN (Suc k) c = popN k (pop c)"

definition popUntil :: "string list \<Rightarrow> treeBuilder \<Rightarrow> treeBuilder" where
  "popUntil ns c = popN (length (takeWhile (\<lambda>f. fst f \<notin> set ns) (fst c))) c"

definition popThrough :: "string \<Rightarrow> treeBuilder \<Rightarrow> treeBuilder" where
  "popThrough n c = pop (popUntil [n] c)"

definition popAll :: "treeBuilder \<Rightarrow> treeBuilder" where
  "popAll c = popN (length (fst c)) c"

fun inScope :: "string list \<Rightarrow> string \<Rightarrow> frame list \<Rightarrow> bool" where
  "inScope bs n [] = False"
| "inScope bs n (f # st) = (fst f = n \<or> (fst f \<notin> set bs \<and> inScope bs n st))"

definition closeP :: "treeBuilder \<Rightarrow> treeBuilder" where
  "closeP c = (if inScope (''button'' # scopeMarkers) ''p'' (fst c) then popThrough ''p'' c else c)"

definition closeLi :: "treeBuilder \<Rightarrow> treeBuilder" where
  "closeLi c =
     (if inScope (filter (\<lambda>t. t \<notin> set [''address'', ''div'', ''p'']) specialElements) ''li'' (fst c)
      then popThrough ''li'' c else c)"

definition pushElement :: "string \<Rightarrow> (string \<times> string) list \<Rightarrow> bool \<Rightarrow> treeBuilder \<Rightarrow> treeBuilder" where
  "pushElement n as fo c = ((n, as, [], fo) # fst c, snd c)"

definition insertElement :: "string \<Rightarrow> (string \<times> string) list \<Rightarrow> treeBuilder \<Rightarrow> treeBuilder" where
  "insertElement n as c =
     (if n \<in> set voidElements then insertNode (appendNode (Element n as [])) c
      else pushElement n as (fostering c) c)"

definition insertCharacters :: "string \<Rightarrow> treeBuilder \<Rightarrow> treeBuilder" where
  "insertCharacters s c =
     (if fostering c \<and> list_all isAsciiSpace s then insertAtCurrent (appendText s) c
      else insertNode (appendText s) c)"

text \<open>A start tag of the table structure, seen while a table is open.\<close>

definition tableStartTag :: "string \<Rightarrow> (string \<times> string) list \<Rightarrow> treeBuilder \<Rightarrow> treeBuilder" where
  "tableStartTag n as c =
     (if n \<in> set [''caption'', ''colgroup'', ''tbody'', ''thead'', ''tfoot''] then
        pushElement n as False (popUntil [''table''] c)
      else if n = ''col'' then
        let c1 = popUntil [''colgroup'', ''table''] c;
            c2 = (if currentIs [''table''] c1 then pushElement ''colgroup'' [] False c1 else c1)
        in insertAtCurrent (appendNode (Element n as [])) c2
      else if n = ''tr'' then
        let c1 = popUntil [''tbody'', ''thead'', ''tfoot'', ''table''] c;
            c2 = (if currentIs [''table''] c1 then pushElement ''tbody'' [] False c1 else c1)
        in pushElement n as False c2
      else
        let c1 = popUntil [''tr'', ''tbody'', ''thead'', ''tfoot'', ''table''] c;
            c2 = (if currentIs [''table''] c1 then pushElement ''tbody'' [] False c1 else c1);
            c3 = (if currentIs [''tr''] c2 then c2 else pushElement ''tr'' [] False c2)
        in pushElement n as False c3)"

definition startTag :: "string \<Rightarrow> (string \<times> string) list \<Rightarrow> treeBuilder \<Rightarrow> treeBuilder" where
  "startTag n as c =
     (if n \<in> set tableStructure then
        (if ''table'' \<in> set (openTags c) then tableStartTag n as c else c)
      else if n = ''table'' \<and> fostering c then insertElement n as (popThrough ''table'' c)
      else
        let c1 = (if n = ''li'' then closeLi c else c);
            c2 = (if n \<in> set closesP then closeP c1 else c1)
        in insertElement n as c2)"

definition endTag :: "string \<Rightarrow> treeBuilder \<Rightarrow> treeBuilder" where
  "endTag n c =
     (if n = ''br'' then insertElement ''br'' [] c
      else if n = ''p'' then
        (if inScope (''button'' # scopeMarkers) ''p'' (fst c) then popThrough ''p'' c
         else pop (insertElement ''p'' [] c))
      else if n = ''table'' \<or> n \<in> set tableStructure then
        (if inScope tableScope n (fst c) then popThrough n c else c)
      else if n \<in> set specialElements then
        (if inScope scopeMarkers n (fst c) then popThrough n c else c)
      else
        (if inScope specialElements n (fst c) then popThrough n c else c))"

fun treeStep :: "token \<Rightarrow> treeBuilder \<Rightarrow> treeBuilder" where
  "treeStep (TText s) c = insertCharacters s c"
| "treeStep (TStart n as) c = startTag n as c"
| "treeStep (TEnd n) c = endTag n c"

fun build :: "token list \<Rightarrow> treeBuilder \<Rightarrow> node list" where
  "build [] c = snd (popAll c)"
| "build (tok # ts) c = build ts (treeStep tok c)"

definition parse :: "string \<Rightarrow> node list" where
  "parse html = build (tokenize (Data []) html) ([], [])"

text \<open>
  The document is the tree.  Reading \<^verbatim>\<open>innerHTML\<close> serialises the children of the
  element, assigning it replaces them by what the parser builds from the markup, so what
  is read after an assignment is the serialisation of the parsed markup and not the
  markup assigned.  A live range whose boundary points were inside the replaced children
  collapses to the start of the element.
\<close>

definition innerHTML :: "editor \<Rightarrow> string" where
  "innerHTML st = serialize (childNodes st)"

definition set_innerHTML :: "string \<Rightarrow> editor \<Rightarrow> editor" where
  "set_innerHTML html st =
     st\<lparr>childNodes := parse html,
        liveSelection := (case liveSelection st of
                            None \<Rightarrow> None
                          | Some r \<Rightarrow> Some \<lparr>startContainer = [], startOffset = 0,
                                              endContainer = [], endOffset = 0\<rparr>)\<rparr>"

definition set_childNodes :: "node list \<Rightarrow> editor \<Rightarrow> editor" where
  "set_childNodes d st = st\<lparr>childNodes := d\<rparr>"

text \<open>Reading an array at an index: \<^verbatim>\<open>undefined\<close> outside the array.\<close>

definition at_index :: "'a list \<Rightarrow> int \<Rightarrow> 'a option" where
  "at_index xs i = (if 0 \<le> i \<and> i < int (length xs) then Some (xs ! nat i) else None)"

section \<open>Selection codec: \<^verbatim>\<open>saveSelection\<close>\<close>

definition saveSelection :: "editor \<Rightarrow> LogicalSelection option" where
  "saveSelection st =
     (case liveSelection st of
        None \<Rightarrow> None
      | Some r \<Rightarrow>
          let startOff = lengthBefore (childNodes st) (startContainer r) (startOffset r);
              endOff = (if collapsed r then startOff
                        else lengthBefore (childNodes st) (endContainer r) (endOffset r))
          in Some \<lparr>sel_start = startOff, sel_end = endOff, sel_collapsed = collapsed r\<rparr>)"

section \<open>History manager\<close>

text \<open>
  \<^verbatim>\<open>createHistoryEntry\<close> (lines 700 to 727): nothing while an undo or redo is being
  performed; otherwise the entries past the index are cut off when the index is inside
  the history, the new entry is pushed and the index moves to it.
\<close>

definition createHistoryEntry :: "editor \<Rightarrow> editor" where
  "createHistoryEntry st =
     (if isPerformingUndoRedo st then st
      else
        let editorContent = innerHTML st;
            selectionInfo = saveSelection st;
            historyEntry = \<lparr>content = editorContent, selection = selectionInfo,
                            timestamp = now st\<rparr>;
            trimmed = (if historyIndex st \<ge> 0 \<and>
                          historyIndex st < int (length (editorHistory st)) - 1
                       then take (nat (historyIndex st + 1)) (editorHistory st)
                       else editorHistory st);
            pushed = trimmed @ [historyEntry]
        in st\<lparr>editorHistory := pushed, historyIndex := int (length pushed) - 1\<rparr>)"

text \<open>
  \<^verbatim>\<open>customUndo\<close> (lines 851 to 893).  The body of the \<^verbatim>\<open>try\<close> reads the entry at the
  decremented index; were the index outside the array, reading \<^verbatim>\<open>.content\<close> of
  \<^verbatim>\<open>undefined\<close> would throw, the \<^verbatim>\<open>catch\<close> returns false, and the index stays
  decremented.  The \<^verbatim>\<open>finally\<close> schedules the reset of the flag on both ways out.
\<close>

definition customUndo :: "editor \<Rightarrow> bool \<times> editor" where
  "customUndo st =
     (if length (editorHistory st) = 0 \<or> historyIndex st \<le> 0 then (False, st)
      else
        let st1 = st\<lparr>isPerformingUndoRedo := True\<rparr>;
            st2 = st1\<lparr>historyIndex := historyIndex st1 - 1\<rparr>;
            r = (case at_index (editorHistory st2) (historyIndex st2) of
                   None \<Rightarrow> (False, st2)
                 | Some historyEntry \<Rightarrow>
                     let st3 = set_innerHTML (content historyEntry) st2;
                         st4 = (case selection historyEntry of
                                  Some sel \<Rightarrow> setTimeout (RestoreSelection sel) 0 st3
                                | None \<Rightarrow> st3)
                     in (True, postMessage contentChanged st4))
        in (fst r, setTimeout ResetUndoRedoFlag 10 (snd r)))"

text \<open>\<^verbatim>\<open>customRedo\<close> (lines 896 to 938), the same with the index incremented.\<close>

definition customRedo :: "editor \<Rightarrow> bool \<times> editor" where
  "customRedo st =
     (if length (editorHistory st) = 0 \<or>
         historyIndex st \<ge> int (length (editorHistory st)) - 1 then (False, st)
      else
        let st1 = st\<lparr>isPerformingUndoRedo := True\<rparr>;
            st2 = st1\<lparr>historyIndex := historyIndex st1 + 1\<rparr>;
            r = (case at_index (editorHistory st2) (historyIndex st2) of
                   None \<Rightarrow> (False, st2)
                 | Some historyEntry \<Rightarrow>
                     let st3 = set_innerHTML (content historyEntry) st2;
                         st4 = (case selection historyEntry of
                                  Some sel \<Rightarrow> setTimeout (RestoreSelection sel) 0 st3
                                | None \<Rightarrow> st3)
                     in (True, postMessage contentChanged st4))
        in (fst r, setTimeout ResetUndoRedoFlag 10 (snd r)))"

text \<open>
  The two \<^verbatim>\<open>input\<close> listeners of the editor (lines 1024 and 1069), in the order in which
  they are registered: the first records a history entry unless an undo or redo is being
  performed, the second tells the host that the content changed.
\<close>

definition onInput :: "editor \<Rightarrow> editor" where
  "onInput st =
     postMessage contentChanged (if \<not> isPerformingUndoRedo st then createHistoryEntry st else st)"

text \<open>
  A user edit: the browser changes the tree and the selection at some time, then fires
  the \<^verbatim>\<open>input\<close> event.
\<close>

definition userEdit :: "node list \<times> range option \<times> nat \<Rightarrow> editor \<Rightarrow> editor" where
  "userEdit e st =
     (case e of (d, sel, t) \<Rightarrow>
        onInput ((set_childNodes d st)\<lparr>liveSelection := sel, now := t\<rparr>))"

text \<open>The state when the script has been loaded (lines 683 to 697).\<close>

definition initial :: "editor" where
  "initial = \<lparr>childNodes = [], liveSelection = None,
     searchResults = [], searchIndex = -1, currentSearchText = [],
     editorHistory = [], historyIndex = -1, isPerformingUndoRedo = False,
     posted = [], timers = [], now = 0\<rparr>"

text \<open>Runs of edits, of undo calls and of redo calls.\<close>

fun edits :: "(node list \<times> range option \<times> nat) list \<Rightarrow> editor \<Rightarrow> editor" where
  "edits [] st = st"
| "edits (e # es) st = edits es (userEdit e st)"

fun undos :: "nat \<Rightarrow> editor \<Rightarrow> editor" where
  "undos 0 st = st"
| "undos (Suc n) st = undos n (snd (customUndo st))"

fun redos :: "nat \<Rightarrow> editor \<Rightarrow> editor" where
  "redos 0 st = st"
| "redos (Suc n) st = redos n (snd (customRedo st))"

section \<open>Tree operations of the browser\<close>

text \<open>
  Errors that the DOM raises.  \<open>StaleNode\<close> stands for the use of a path that no longer
  leads to a node of the expected kind; the script holds live references, so it has no such
  case.
\<close>

datatype DOMException = IndexSizeError | TypeError | StaleNode

datatype 'a outcome = Returned 'a | Threw DOMException

fun nodeAt :: "node list \<Rightarrow> path \<Rightarrow> node option" where
  "nodeAt cs [] = None"
| "nodeAt cs [i] = (if i < length cs then Some (cs ! i) else None)"
| "nodeAt cs (i # j # p) =
     (if i < length cs then
        (case cs ! i of Element t a ks \<Rightarrow> nodeAt ks (j # p) | Text s \<Rightarrow> None)
      else None)"

text \<open>Replacing the node at a path by a list of siblings.\<close>

fun splice :: "path \<Rightarrow> (node \<Rightarrow> node list) \<Rightarrow> node list \<Rightarrow> node list" where
  "splice [] f cs = cs"
| "splice [i] f cs = (if i < length cs then take i cs @ f (cs ! i) @ drop (Suc i) cs else cs)"
| "splice (i # j # p) f cs =
     (if i < length cs then
        (case cs ! i of
           Element t a ks \<Rightarrow> cs[i := Element t a (splice (j # p) f ks)]
         | Text s \<Rightarrow> cs)
      else cs)"

definition sibling :: "path \<Rightarrow> nat \<Rightarrow> path" where
  "sibling p k = butlast p @ [last p + k]"

text \<open>
  A reference to a node that follows the node at \<open>p\<close> under the same parent, or lies
  below such a node, moves by \<open>k\<close> places when \<open>k\<close> siblings are inserted after \<open>p\<close>.
\<close>

definition shiftAfter :: "path \<Rightarrow> nat \<Rightarrow> path \<Rightarrow> path" where
  "shiftAfter p k q =
     (let d = length p - 1 in
      if p \<noteq> [] \<and> d < length q \<and> take d q = butlast p \<and> last p < q ! d
      then q[d := q ! d + k] else q)"

text \<open>The class list of an element: the tokens of its \<^verbatim>\<open>class\<close> attribute.\<close>


fun classTokens :: "string \<Rightarrow> string \<Rightarrow> string list" where
  "classTokens cur [] = (if cur = [] then [] else [cur])"
| "classTokens cur (c # cs) =
     (if isAsciiSpace c then (if cur = [] then [] else [cur]) @ classTokens [] cs
      else classTokens (cur @ [c]) cs)"

definition classList :: "(string \<times> string) list \<Rightarrow> string list" where
  "classList a = (case map_of a ''class'' of None \<Rightarrow> [] | Some v \<Rightarrow> classTokens [] v)"

definition isHighlight :: "node \<Rightarrow> bool" where
  "isHighlight n = (case n of Text s \<Rightarrow> False | Element t a cs \<Rightarrow> ''search-highlight'' \<in> set (classList a))"

text \<open>
  \<^verbatim>\<open>Node.normalize\<close>: empty text nodes are removed and adjacent text nodes are joined, in
  the whole subtree.
\<close>

fun joinText :: "node list \<Rightarrow> node list" where
  "joinText [] = []"
| "joinText (Text s # ns) =
     (if s = [] then joinText ns
      else (case joinText ns of
              Text s' # ns' \<Rightarrow> Text (s @ s') # ns'
            | ns' \<Rightarrow> Text s # ns'))"
| "joinText (Element t a cs # ns) = Element t a cs # joinText ns"

fun normalizeNode :: "node \<Rightarrow> node" where
  "normalizeNode (Text s) = Text s"
| "normalizeNode (Element t a cs) = Element t a (joinText (map normalizeNode cs))"

definition normalize :: "node list \<Rightarrow> node list" where
  "normalize cs = joinText (map normalizeNode cs)"

section \<open>Search engine\<close>

text \<open>
  \<^verbatim>\<open>String.prototype.indexOf(searchString, position)\<close>: the first index from the
  position on at which the search string starts; \<open>None\<close> is the result \<open>-1\<close>.
\<close>

fun indexOfAt :: "string \<Rightarrow> string \<Rightarrow> nat \<Rightarrow> nat option" where
  "indexOfAt [] t k = (if t = [] then Some k else None)"
| "indexOfAt (c # cs) t k = (if startsWith (c # cs) t then Some k else indexOfAt cs t (Suc k))"

definition indexOf :: "string \<Rightarrow> string \<Rightarrow> nat \<Rightarrow> nat option" where
  "indexOf s t pos = indexOfAt (drop pos s) t (min pos (length s))"

lemma indexOfAt_bounds:
  "indexOfAt s t k = Some i \<Longrightarrow> t \<noteq> [] \<Longrightarrow> k \<le> i \<and> i < k + length s"
proof (induction s arbitrary: k)
  case Nil
  then show ?case by simp
next
  case (Cons c cs)
  then show ?case by (fastforce split: if_splits)
qed

lemma indexOf_bounds:
  "indexOf s t pos = Some i \<Longrightarrow> t \<noteq> [] \<Longrightarrow> pos \<le> i \<and> i < length s"
  unfolding indexOf_def
  by (cases "pos \<le> length s") (auto dest!: indexOfAt_bounds simp add: min_def)

text \<open>
  The inner loop of \<^verbatim>\<open>searchAndHighlight\<close> (lines 1667 to 1674) on one text node:
  every index found is recorded and the next search starts one character after it.  The
  loop is entered with a non-empty search text only (line 1643 returns before it
  otherwise); with an empty one it would not end, and the function below stops instead.
\<close>

function matchIndices :: "string \<Rightarrow> string \<Rightarrow> nat option \<Rightarrow> nat list" where
  "matchIndices nodeText searchText None = []"
| "matchIndices nodeText searchText (Some index) =
     index # (if searchText = [] then []
              else matchIndices nodeText searchText (indexOf nodeText searchText (index + 1)))"
  by pat_completeness auto
termination
proof (relation "measure (\<lambda>(c, t, idx). case idx of None \<Rightarrow> 0 | Some i \<Rightarrow> Suc (Suc (length c) - i))")
  show "wf (measure (\<lambda>(c, t, idx). case idx of None \<Rightarrow> 0 | Some i \<Rightarrow> Suc (Suc (length c) - i)))"
    by simp
next
  fix nodeText searchText :: string and index :: nat
  assume "searchText \<noteq> []"
  then show "((nodeText, searchText, indexOf nodeText searchText (index + 1)),
              (nodeText, searchText, Some index))
             \<in> measure (\<lambda>(c, t, idx). case idx of None \<Rightarrow> 0 | Some i \<Rightarrow> Suc (Suc (length c) - i))"
    by (cases "indexOf nodeText searchText (index + 1)") (auto dest!: indexOf_bounds)
qed

text \<open>The outer loop over the text nodes of the walker: the list \<^verbatim>\<open>matches\<close>.\<close>

fun findMatches :: "string \<Rightarrow> (path \<times> string) list \<Rightarrow> (path \<times> nat) list" where
  "findMatches searchText [] = []"
| "findMatches searchText ((p, nodeText) # nodes) =
     map (\<lambda>i. (p, i)) (matchIndices nodeText searchText (indexOf nodeText searchText 0)) @
     findMatches searchText nodes"

text \<open>
  \<^verbatim>\<open>clearSearch\<close> (lines 1618 to 1637).  Every element with the class
  \<^verbatim>\<open>search-highlight\<close> is replaced by a text node with its text; one that lies inside
  another goes away with the outer one.  Then the tree is normalised.
\<close>

fun hasHighlights :: "node \<Rightarrow> bool" where
  "hasHighlights (Text s) = False"
| "hasHighlights (Element t a cs) =
     (''search-highlight'' \<in> set (classList a) \<or> (\<exists>c \<in> set cs. hasHighlights c))"

fun removeHighlights :: "node \<Rightarrow> node" where
  "removeHighlights (Text s) = Text s"
| "removeHighlights (Element t a cs) =
     (if ''search-highlight'' \<in> set (classList a) then Text (textContents cs)
      else Element t a (map removeHighlights cs))"

definition clearSearch :: "editor \<Rightarrow> bool \<times> editor" where
  "clearSearch st =
     (let st1 = st\<lparr>searchResults := [], searchIndex := -1, currentSearchText := []\<rparr>
      in if \<exists>c \<in> set (childNodes st1). hasHighlights c then
           (True, set_childNodes (normalize (map removeHighlights (childNodes st1))) st1)
         else (False, st1))"

text \<open>
  \<^verbatim>\<open>selectSearchResult\<close> (lines 1710 to 1733): the index is clamped, the contents of the
  span become the selection.
\<close>

definition selectSearchResult :: "int \<Rightarrow> editor \<Rightarrow> bool \<times> editor" where
  "selectSearchResult index st =
     (if length (searchResults st) = 0 then (False, st)
      else
        let index' = max 0 (min index (int (length (searchResults st)) - 1));
            st1 = st\<lparr>searchIndex := index'\<rparr>;
            span = searchResults st1 ! nat index';
            n = (case nodeAt (childNodes st1) span of
                   Some (Element t a cs) \<Rightarrow> length cs
                 | Some (Text s) \<Rightarrow> length s
                 | None \<Rightarrow> 0)
        in (True, st1\<lparr>liveSelection :=
                        Some \<lparr>startContainer = span, startOffset = 0,
                              endContainer = span, endOffset = n\<rparr>\<rparr>))"

text \<open>
  One round of the highlighting loop (lines 1679 to 1698) for the match at \<open>index\<close> in
  the text node at \<open>p\<close>.  \<^verbatim>\<open>splitText\<close> throws \<open>IndexSizeError\<close> when the offset is
  greater than the length of the node; what the round has done to the tree before the
  throw stays.  The first split leaves the node with the text before the match and puts
  \<^verbatim>\<open>beforeNode\<close> after it, the second cuts \<^verbatim>\<open>beforeNode\<close> down to the match, which the
  new span then wraps.  The spans recorded earlier lie further on in the document and move
  by the two siblings that the round inserts.
\<close>

definition highlightSpan :: "node \<Rightarrow> node" where
  "highlightSpan n =
     Element ''span'' [(''class'', ''search-highlight''),
                       (''style'', ''background-color: rgb(255, 255, 0);'')] [n]"

definition highlightMatch :: "string \<Rightarrow> path \<times> nat \<Rightarrow> editor \<Rightarrow> editor \<times> DOMException option" where
  "highlightMatch searchText m st =
     (case m of (p, index) \<Rightarrow>
        (case nodeAt (childNodes st) p of
           Some (Text d) \<Rightarrow>
             if index > length d then (st, Some IndexSizeError)
             else
               let st1 = set_childNodes
                           (splice p (\<lambda>n. [Text (take index d), Text (drop index d)]) (childNodes st)) st;
                   st1' = st1\<lparr>searchResults := map (shiftAfter p 1) (searchResults st1)\<rparr>;
                   beforeNode = sibling p 1;
                   b = drop index d
               in if length searchText > length b then (st1', Some IndexSizeError)
                  else
                    let st2 = set_childNodes
                                (splice beforeNode
                                   (\<lambda>n. [Text (take (length searchText) b),
                                          Text (drop (length searchText) b)]) (childNodes st1')) st1';
                        st2' = st2\<lparr>searchResults := map (shiftAfter beforeNode 1) (searchResults st2)\<rparr>;
                        st3 = set_childNodes
                                (splice beforeNode (\<lambda>n. [highlightSpan n]) (childNodes st2')) st2'
                    in (st3\<lparr>searchResults := searchResults st3 @ [beforeNode]\<rparr>, None)
         | _ \<Rightarrow> (st, Some StaleNode)))"

fun highlightAll :: "string \<Rightarrow> (path \<times> nat) list \<Rightarrow> editor \<Rightarrow> editor \<times> DOMException option" where
  "highlightAll searchText [] st = (st, None)"
| "highlightAll searchText (m # ms) st =
     (case highlightMatch searchText m st of
        (st', Some e) \<Rightarrow> (st', Some e)
      | (st', None) \<Rightarrow> highlightAll searchText ms st')"

text \<open>
  \<^verbatim>\<open>searchAndHighlight\<close> (lines 1639 to 1708).  The matches are highlighted from the
  last to the first; an exception of the loop leaves the function without a result.
\<close>

definition searchAndHighlight :: "string \<Rightarrow> editor \<Rightarrow> nat outcome \<times> editor" where
  "searchAndHighlight searchText st =
     (let st1 = snd (clearSearch st)
      in if searchText = [] then (Returned 0, st1)
         else
           let st2 = st1\<lparr>currentSearchText := searchText, searchResults := [], searchIndex := -1\<rparr>;
               matches = findMatches searchText (walker (childNodes st2));
               count = length matches
           in (case highlightAll searchText (rev matches) st2 of
                 (st3, Some e) \<Rightarrow> (Threw e, st3)
               | (st3, None) \<Rightarrow>
                   if length (searchResults st3) > 0
                   then (Returned count, snd (selectSearchResult 0 (st3\<lparr>searchIndex := 0\<rparr>)))
                   else (Returned count, st3)))"

text \<open>\<^verbatim>\<open>findNext\<close> and \<^verbatim>\<open>findPrevious\<close> (lines 1735 to 1755).\<close>

definition findNext :: "editor \<Rightarrow> bool \<times> editor" where
  "findNext st =
     (if length (searchResults st) = 0 then (False, st)
      else
        let st1 = st\<lparr>searchIndex := searchIndex st + 1\<rparr>;
            st2 = (if searchIndex st1 \<ge> int (length (searchResults st1))
                   then st1\<lparr>searchIndex := 0\<rparr> else st1)
        in selectSearchResult (searchIndex st2) st2)"

definition findPrevious :: "editor \<Rightarrow> bool \<times> editor" where
  "findPrevious st =
     (if length (searchResults st) = 0 then (False, st)
      else
        let st1 = st\<lparr>searchIndex := searchIndex st - 1\<rparr>;
            st2 = (if searchIndex st1 < 0
                   then st1\<lparr>searchIndex := int (length (searchResults st1)) - 1\<rparr> else st1)
        in selectSearchResult (searchIndex st2) st2)"

subsection \<open>Replacing\<close>






function countMatches :: "string \<Rightarrow> string \<Rightarrow> nat \<Rightarrow> nat" where
  "countMatches str pat pos =
     (if pat = [] then 0
      else (case indexOf str pat pos of
              None \<Rightarrow> 0
            | Some i \<Rightarrow> Suc (countMatches str pat (i + length pat))))"
  by pat_completeness auto
termination
  by (relation "measure (\<lambda>(str, pat, pos). length str - pos)")
     (auto dest!: indexOf_bounds simp flip: length_greater_0_conv)


text \<open>
  \<^verbatim>\<open>document.execCommand('insertText', false, text)\<close> for a selection that is the whole
  contents of one element, the only selection \<^verbatim>\<open>replaceSelection\<close> makes: the children
  give way to the text, the caret is put after it and the \<^verbatim>\<open>input\<close> event fires.  What a
  browser does to the emptied or restyled element beyond that is not modelled.
\<close>

definition execInsertText :: "string \<Rightarrow> editor \<Rightarrow> editor" where
  "execInsertText txt st =
     (case liveSelection st of
        None \<Rightarrow> st
      | Some r \<Rightarrow>
          let p = startContainer r;
              kids = (if txt = [] then [] else [Text txt]);
              st1 = set_childNodes
                      (splice p (\<lambda>n. case n of
                                         Element t a cs \<Rightarrow> [Element t a kids]
                                       | Text s \<Rightarrow> [Text s]) (childNodes st)) st
          in onInput (st1\<lparr>liveSelection :=
                            Some \<lparr>startContainer = p, startOffset = length kids,
                                  endContainer = p, endOffset = length kids\<rparr>\<rparr>))"

text \<open>
  \<^verbatim>\<open>replaceSelection\<close> (lines 941 to 974).  An index beyond the results reads
  \<^verbatim>\<open>undefined\<close>, on which \<^verbatim>\<open>selectNodeContents\<close> throws.
\<close>

definition replaceSelection :: "string \<Rightarrow> editor \<Rightarrow> bool outcome \<times> editor" where
  "replaceSelection replaceText st =
     (if length (searchResults st) = 0 \<or> searchIndex st < 0 then (Returned False, st)
      else
        let st1 = createHistoryEntry st
        in (case at_index (searchResults st1) (searchIndex st1) of
              None \<Rightarrow> (Threw TypeError, st1)
            | Some span \<Rightarrow>
                let n = (case nodeAt (childNodes st1) span of
                           Some (Element t a cs) \<Rightarrow> length cs
                         | Some (Text s) \<Rightarrow> length s
                         | None \<Rightarrow> 0);
                    st2 = st1\<lparr>liveSelection :=
                               Some \<lparr>startContainer = span, startOffset = 0,
                                     endContainer = span, endOffset = n\<rparr>\<rparr>;
                    st3 = execInsertText replaceText st2;
                    st4 = setTimeout CreateHistoryEntry 0 st3;
                    st5 = postMessage contentChanged st4;
                    searchText = currentSearchText st5;
                    st6 = setTimeout (SearchAgain searchText) 10 st5
                in (Returned True, st6)))"

section \<open>Selection codec: \<^verbatim>\<open>restoreSelection\<close>\<close>

text \<open>
  The loop of \<^verbatim>\<open>getNodeAndOffsetAtCharacterOffset\<close> (lines 820 to 832) over the text
  nodes of the walker, and the function with its two fall-backs (lines 835 to 847).  Every
  way out returns an object, which is \<open>Some\<close> here.
\<close>

fun walkToOffset :: "(path \<times> string) list \<Rightarrow> nat \<Rightarrow> nat \<Rightarrow> (path \<times> nat) option" where
  "walkToOffset [] currentOffset charOffset = None"
| "walkToOffset ((p, s) # nodes) currentOffset charOffset =
     (if currentOffset + length s \<ge> charOffset then Some (p, charOffset - currentOffset)
      else walkToOffset nodes (currentOffset + length s) charOffset)"

definition getNodeAndOffsetAtCharacterOffset :: "node list \<Rightarrow> nat \<Rightarrow> (path \<times> nat) option" where
  "getNodeAndOffsetAtCharacterOffset root charOffset =
     (case walkToOffset (walker root) 0 charOffset of
        Some pos \<Rightarrow> Some pos
      | None \<Rightarrow>
          if root \<noteq> [] then
            (case last root of
               Text s \<Rightarrow> Some ([length root - 1], length s)
             | Element t a cs \<Rightarrow> Some ([], length root))
          else Some ([], 0))"

text \<open>
  The range of the browser.  \<^verbatim>\<open>setStart\<close> and \<^verbatim>\<open>setEnd\<close> throw \<open>IndexSizeError\<close> for
  an offset greater than the length of the node; \<^verbatim>\<open>setEnd\<close> with a point before the
  start moves the start to it.  Boundary points are compared in document order.
\<close>

definition nodeLength :: "node list \<Rightarrow> path \<Rightarrow> nat option" where
  "nodeLength root p =
     (if p = [] then Some (length root)
      else (case nodeAt root p of
              Some (Text s) \<Rightarrow> Some (length s)
            | Some (Element t a cs) \<Rightarrow> Some (length cs)
            | None \<Rightarrow> None))"

fun pathLess :: "nat list \<Rightarrow> nat list \<Rightarrow> bool" where
  "pathLess [] [] = False"
| "pathLess [] (y # ys) = True"
| "pathLess (x # xs) [] = False"
| "pathLess (x # xs) (y # ys) = (x < y \<or> (x = y \<and> pathLess xs ys))"

definition pointBefore :: "path \<times> nat \<Rightarrow> path \<times> nat \<Rightarrow> bool" where
  "pointBefore a b = pathLess (fst a @ [snd a]) (fst b @ [snd b])"

definition makeRange :: "node list \<Rightarrow> path \<times> nat \<Rightarrow> path \<times> nat \<Rightarrow> DOMException + range" where
  "makeRange root s e =
     (case nodeLength root (fst s) of
        None \<Rightarrow> Inl StaleNode
      | Some n \<Rightarrow>
          if snd s > n then Inl IndexSizeError
          else (case nodeLength root (fst e) of
                  None \<Rightarrow> Inl StaleNode
                | Some m \<Rightarrow>
                    if snd e > m then Inl IndexSizeError
                    else if pointBefore e s
                      then Inr \<lparr>startContainer = fst e, startOffset = snd e,
                                endContainer = fst e, endOffset = snd e\<rparr>
                      else Inr \<lparr>startContainer = fst s, startOffset = snd s,
                                endContainer = fst e, endOffset = snd e\<rparr>))"

text \<open>
  \<^verbatim>\<open>restoreSelection\<close> (lines 764 to 806).  An exception of the range calls is caught and
  gives false.  Scrolling the node into view changes nothing that is modelled.
\<close>

definition restoreSelection :: "LogicalSelection option \<Rightarrow> editor \<Rightarrow> bool \<times> editor" where
  "restoreSelection selectionInfo st =
     (case selectionInfo of
        None \<Rightarrow> (False, st)
      | Some sel \<Rightarrow>
          let editorText = textContents (childNodes st);
              maxOffset = length editorText;
              startOff = min (sel_start sel) maxOffset;
              endOff = min (sel_end sel) maxOffset;
              startPosition = getNodeAndOffsetAtCharacterOffset (childNodes st) startOff;
              endPosition = getNodeAndOffsetAtCharacterOffset (childNodes st) endOff
          in (case (startPosition, endPosition) of
                (Some s, Some e) \<Rightarrow>
                  (case makeRange (childNodes st) s e of
                     Inl exn \<Rightarrow> (False, st)
                   | Inr r \<Rightarrow> (True, st\<lparr>liveSelection := Some r\<rparr>))
              | _ \<Rightarrow> (False, st)))"

section \<open>Content model: \<^verbatim>\<open>setContent\<close>\<close>

text \<open>
  \<^verbatim>\<open>wrapUnwrappedText\<close> (lines 1417 to 1432): every text node that is a child of the
  element and has more than white space gets a \<^verbatim>\<open>div\<close> of its own.
\<close>

definition wrapUnwrappedText :: "node list \<Rightarrow> node list" where
  "wrapUnwrappedText cs =
     map (\<lambda>n. case n of
                 Text s \<Rightarrow> if trim s \<noteq> [] then Element ''div'' [] [Text s] else Text s
               | Element t a ks \<Rightarrow> Element t a ks) cs"

text \<open>
  \<^verbatim>\<open>setContent\<close> (lines 1498 to 1516).  The six tests are tests of a prefix of the
  trimmed markup.
\<close>

definition startsWithBlockTag :: "string \<Rightarrow> bool" where
  "startsWithBlockTag html \<longleftrightarrow>
     startsWith (trim html) ''<div'' \<or> startsWith (trim html) ''<p'' \<or>
     startsWith (trim html) ''<h'' \<or> startsWith (trim html) ''<ul'' \<or>
     startsWith (trim html) ''<ol'' \<or> startsWith (trim html) ''<table''"

definition setContent :: "string \<Rightarrow> editor \<Rightarrow> editor" where
  "setContent html st =
     (if html = [] \<or> trim html = [] then set_innerHTML ''<div><br></div>'' st
      else
        let html' = (if \<not> startsWithBlockTag html then ''<div>'' @ html @ ''</div>'' else html)
        in setTimeout WrapUnwrappedText 0 (set_innerHTML html' st))"

definition getContent :: "editor \<Rightarrow> string" where
  "getContent st = innerHTML st"

section \<open>The event loop\<close>

text \<open>
  Running a call that \<^verbatim>\<open>setTimeout\<close> has kept.  An exception in the call ends it and
  leaves the state that the call had reached.  The handler registrations that line 1514
  repeats have no state of their own here.
\<close>

definition runDeferred :: "deferred \<Rightarrow> editor \<Rightarrow> editor" where
  "runDeferred f st =
     (case f of
        RestoreSelection sel \<Rightarrow> snd (restoreSelection (Some sel) st)
      | ResetUndoRedoFlag \<Rightarrow> st\<lparr>isPerformingUndoRedo := False\<rparr>
      | CreateHistoryEntry \<Rightarrow> createHistoryEntry st
      | SearchAgain searchText \<Rightarrow> snd (searchAndHighlight searchText st)
      | WrapUnwrappedText \<Rightarrow> set_childNodes (wrapUnwrappedText (childNodes st)) st)"

text \<open>The timer at place \<open>i\<close> of the pending ones fires.\<close>

definition fire :: "nat \<Rightarrow> editor \<Rightarrow> editor" where
  "fire i st =
     (if i < length (timers st)
      then runDeferred (snd (timers st ! i))
             (st\<lparr>timers := take i (timers st) @ drop (Suc i) (timers st)\<rparr>)
      else st)"

text \<open>
  The first \<^verbatim>\<open>DOMContentLoaded\<close> listener (lines 1016 to 1034): an empty editor gets one
  empty block, the first history entry is scheduled.
\<close>

definition onDOMContentLoaded :: "editor \<Rightarrow> editor" where
  "onDOMContentLoaded st =
     setTimeout CreateHistoryEntry 100
       (if trim (innerHTML st) = [] then set_innerHTML ''<div><br></div>'' st else st)"

section \<open>Table controller\<close>

text \<open>
  The table controller works on the tables of the document, on \<^verbatim>\<open>activeTable\<close> and on
  the messages to the host only, so its state is kept by itself.  A table element is a
  record of the properties that the script reads and writes: its class attribute, the two
  margins of its style, its rows as lists of cells (a cell is its markup) and the class
  names of the handle elements appended to it.  A table is referred to by \<open>tid\<close>, which
  stands for the identity of the element.  \<open>tables\<close> is
  \<^verbatim>\<open>document.querySelectorAll('table')\<close>, in document order.  Tables inside the cells of
  another table are not modelled.
\<close>

record table =
  tid :: nat
  className :: string
  marginLeft :: string
  marginTop :: string
  rows :: "string list list"
  handles :: "string list"

record tableDoc =
  tables :: "table list"
  activeTable :: "nat option"
  notified :: "message list"

definition notify :: "message \<Rightarrow> tableDoc \<Rightarrow> tableDoc" where
  "notify m st = st\<lparr>notified := notified st @ [m]\<rparr>"

definition updateTable :: "nat \<Rightarrow> (table \<Rightarrow> table) \<Rightarrow> tableDoc \<Rightarrow> tableDoc" where
  "updateTable t f st = st\<lparr>tables := map (\<lambda>tb. if tid tb = t then f tb else tb) (tables st)\<rparr>"

text \<open>
  \<^verbatim>\<open>classList\<close> is the ordered set of the tokens of the class attribute; a change of it
  writes the tokens back, separated by single spaces.
\<close>

fun orderedSet :: "string list \<Rightarrow> string list" where
  "orderedSet [] = []"
| "orderedSet (x # xs) = x # filter (\<lambda>y. y \<noteq> x) (orderedSet xs)"

fun joinTokens :: "string list \<Rightarrow> string" where
  "joinTokens [] = []"
| "joinTokens [x] = x"
| "joinTokens (x # y # xs) = x @ '' '' @ joinTokens (y # xs)"

definition alignmentClasses :: "string list" where
  "alignmentClasses = [''left-align'', ''right-align'', ''center-align'', ''no-wrap'']"

text \<open>
  \<^verbatim>\<open>activateTable\<close> (lines 1252 to 1283).  The alignment is the last of the four classes
  that the class attribute includes as a substring, \<^verbatim>\<open>no-wrap\<close> when it includes none;
  the four classes are removed and the alignment is added; each handle is appended unless
  the table has one.
\<close>

definition currentAlignment :: "string \<Rightarrow> string" where
  "currentAlignment currentClasses =
     foldl (\<lambda>cur cls. if str_includes currentClasses cls then cls else cur)
       ''no-wrap'' alignmentClasses"

definition activate :: "table \<Rightarrow> table" where
  "activate tb =
     (let currentClasses = className tb;
          alignment = currentAlignment currentClasses;
          removed = filter (\<lambda>c. c \<notin> set alignmentClasses)
                      (orderedSet (classTokens [] currentClasses));
          added = (if alignment \<in> set removed then removed else removed @ [alignment]);
          h1 = (if ''table-handle'' \<in> set (handles tb) then handles tb
                else handles tb @ [''table-handle'']);
          h2 = (if ''table-drag-handle'' \<in> set h1 then h1 else h1 @ [''table-drag-handle''])
      in tb\<lparr>marginLeft := [], marginTop := [], className := joinTokens added, handles := h2\<rparr>)"

definition activateTable :: "nat \<Rightarrow> tableDoc \<Rightarrow> tableDoc" where
  "activateTable tableElement st =
     updateTable tableElement activate (st\<lparr>activeTable := Some tableElement\<rparr>)"

text \<open>
  \<^verbatim>\<open>deactivateAllTables\<close> (lines 1403 to 1415): the first handle of each kind is removed
  from every table.
\<close>

definition deactivateAllTables :: "tableDoc \<Rightarrow> tableDoc" where
  "deactivateAllTables st =
     (let st1 = st\<lparr>tables :=
                   map (\<lambda>tb. tb\<lparr>handles := remove1 ''table-drag-handle''
                                               (remove1 ''table-handle'' (handles tb))\<rparr>)
                     (tables st)\<rparr>
      in if activeTable st1 \<noteq> None
         then notify tablesDeactivated (st1\<lparr>activeTable := None\<rparr>)
         else st1)"

text \<open>
  The \<^verbatim>\<open>click\<close> listener of the editor (lines 1168 to 1177); the argument is the table
  that contains the target of the click, if there is one.
\<close>

definition onClick :: "nat option \<Rightarrow> tableDoc \<Rightarrow> tableDoc" where
  "onClick tableElement st =
     (case tableElement of
        None \<Rightarrow> if activeTable st \<noteq> None then deactivateAllTables st else st
      | Some t \<Rightarrow>
          if Some t \<noteq> activeTable st
          then notify tableClicked (activateTable t (deactivateAllTables st))
          else st)"

text \<open>
  \<^verbatim>\<open>insertTable\<close> (lines 1544 to 1563).  \<^verbatim>\<open>insertHTML\<close> puts the new table at the caret:
  \<open>pos\<close> is the number of tables before the caret.  The \<^verbatim>\<open>input\<close> event of the command
  tells the host that the content changed.  The deferred part, ten milliseconds later,
  activates the last table of the document.
\<close>

definition newTable :: "nat \<Rightarrow> int \<Rightarrow> int \<Rightarrow> table" where
  "newTable i r c =
     \<lparr>tid = i, className = ''no-wrap'', marginLeft = [], marginTop = [],
      rows = replicate (nat r) (replicate (nat c) '' ''), handles = []\<rparr>"

definition insertTable :: "int \<Rightarrow> int \<Rightarrow> nat \<Rightarrow> tableDoc \<Rightarrow> tableDoc" where
  "insertTable r c pos st =
     (let fresh = Suc (fold max (map tid (tables st)) 0)
      in notify contentChanged
           (st\<lparr>tables := take pos (tables st) @ [newTable fresh r c] @ drop pos (tables st)\<rparr>))"

definition insertTableDeferred :: "tableDoc \<Rightarrow> tableDoc" where
  "insertTableDeferred st =
     (if tables st = [] then st
      else notify tableClicked (activateTable (tid (last (tables st))) st))"

text \<open>
  \<^verbatim>\<open>deleteTableRow\<close> and \<^verbatim>\<open>deleteTableColumn\<close> (lines 1341 to 1378).  Without a table
  argument the active table is taken; without an index the last row or column.  The host
  calls both with \<^verbatim>\<open>activeTable\<close> and no index.
\<close>

definition resolveTable :: "nat option \<Rightarrow> tableDoc \<Rightarrow> nat option" where
  "resolveTable tableElement st =
     (case tableElement of None \<Rightarrow> activeTable st | Some t \<Rightarrow> Some t)"

definition deleteAt :: "nat \<Rightarrow> 'a list \<Rightarrow> 'a list" where
  "deleteAt i xs = take i xs @ drop (Suc i) xs"

definition deleteRow :: "int option \<Rightarrow> table \<Rightarrow> table" where
  "deleteRow rowIndex tb =
     (if length (rows tb) > 1 then
        let indexToDelete = (case rowIndex of Some r \<Rightarrow> r | None \<Rightarrow> int (length (rows tb)) - 1)
        in if indexToDelete \<ge> 0 \<and> indexToDelete < int (length (rows tb))
           then tb\<lparr>rows := deleteAt (nat indexToDelete) (rows tb)\<rparr>
           else tb
      else tb)"

definition deleteTableRow :: "nat option \<Rightarrow> int option \<Rightarrow> tableDoc \<Rightarrow> tableDoc" where
  "deleteTableRow tableElement rowIndex st =
     (case resolveTable tableElement st of
        None \<Rightarrow> st
      | Some t \<Rightarrow> notify contentChanged (updateTable t (deleteRow rowIndex) st))"

definition deleteColumn :: "int option \<Rightarrow> table \<Rightarrow> table" where
  "deleteColumn colIndex tb =
     (if length (rows tb) > 0 \<and> length (hd (rows tb)) > 1 then
        let indexToDelete = (case colIndex of Some c \<Rightarrow> c
                             | None \<Rightarrow> int (length (hd (rows tb))) - 1)
        in tb\<lparr>rows := map (\<lambda>cells. if indexToDelete \<ge> 0 \<and> indexToDelete < int (length cells)
                                      then deleteAt (nat indexToDelete) cells else cells)
                         (rows tb)\<rparr>
      else tb)"

definition deleteTableColumn :: "nat option \<Rightarrow> int option \<Rightarrow> tableDoc \<Rightarrow> tableDoc" where
  "deleteTableColumn tableElement colIndex st =
     (case resolveTable tableElement st of
        None \<Rightarrow> st
      | Some t \<Rightarrow> notify contentChanged (updateTable t (deleteColumn colIndex) st))"

definition noTables :: "tableDoc" where
  "noTables = \<lparr>tables = [], activeTable = None, notified = []\<rparr>"

section \<open>Predicates of the properties\<close>

text \<open>
  The invariant of the history: a history that has entries has its index on one of them.
  \<open>at_entry\<close> says that the document is the one that an undo or a redo installs from
  the current entry: the tree parsed from the markup of the entry.
\<close>

definition history_ok :: "editor \<Rightarrow> bool" where
  "history_ok st \<longleftrightarrow>
     (editorHistory st \<noteq> [] \<longrightarrow>
        0 \<le> historyIndex st \<and> historyIndex st < int (length (editorHistory st)))"

definition at_entry :: "editor \<Rightarrow> bool" where
  "at_entry st \<longleftrightarrow>
     0 \<le> historyIndex st \<and> historyIndex st < int (length (editorHistory st)) \<and>
     childNodes st = parse (content (editorHistory st ! nat (historyIndex st)))"

text \<open>Two edits that type \<open>a\<close> and then \<open>b\<close> into one block, for the examples.\<close>

definition two_edits :: "(node list \<times> range option \<times> nat) list" where
  "two_edits = [([Element ''div'' [] [Text ''a'']], None, 1),
                ([Element ''div'' [] [Text ''ab'']], None, 2)]"

text \<open>
  The document after \<^verbatim>\<open>insertTable(1, 1)\<close> and its timer: \<^verbatim>\<open>activateTable\<close> (lines 1270 to
  1282) has appended the resize handle and the drag handle to the \<^verbatim>\<open>table\<close> element
  itself.  The arrow in the drag handle is written as the three bytes of its UTF-8
  encoding.  \<open>table_edits\<close> types \<open>a\<close> and then \<open>b\<close> into the cell of that table.
\<close>

definition tableAttributes :: "(string \<times> string) list" where
  "tableAttributes = [(''border'', ''1''), (''cellspacing'', ''0''), (''cellpadding'', ''5''),
     (''class'', ''no-wrap''), (''style'', ''border-collapse: collapse;'')]"

definition resizeHandle :: node where
  "resizeHandle = Element ''div'' [(''class'', ''table-handle'')] []"

definition dragHandle :: node where
  "dragHandle = Element ''div'' [(''class'', ''table-drag-handle''),
     (''title'', ''Drag to reposition table between paragraphs'')]
     [Text [CHR 0xE2, CHR 0x86, CHR 0x95]]"

definition tableBody :: "string \<Rightarrow> node" where
  "tableBody cell = Element ''tbody'' [] [Element ''tr'' [] [Element ''td'' [] [Text cell]]]"

definition activeTableDocument :: "string \<Rightarrow> node list" where
  "activeTableDocument cell =
     [Element ''table'' tableAttributes [tableBody cell, resizeHandle, dragHandle],
      Element ''p'' [] []]"

definition table_edits :: "(node list \<times> range option \<times> nat) list" where
  "table_edits = [(activeTableDocument ''a'', None, 1), (activeTableDocument ''ab'', None, 2)]"

text \<open>
  The block-level elements of HTML, and whether a list of nodes has one.  The first tag of
  a markup is the first token of it that is not text, when that token is a start tag:
  a tag that the markup does not complete is no token.
\<close>

definition blockLevelTags :: "string list" where
  "blockLevelTags = [''address'', ''article'', ''aside'', ''blockquote'', ''details'', ''dialog'',
     ''dd'', ''div'', ''dl'', ''dt'', ''fieldset'', ''figcaption'', ''figure'', ''footer'', ''form'',
     ''h1'', ''h2'', ''h3'', ''h4'', ''h5'', ''h6'', ''header'', ''hgroup'', ''hr'', ''li'', ''main'',
     ''nav'', ''ol'', ''p'', ''pre'', ''section'', ''table'', ''ul'']"

fun isBlockLevel :: "node \<Rightarrow> bool" where
  "isBlockLevel (Text s) = False"
| "isBlockLevel (Element t a cs) = (t \<in> set blockLevelTags)"

definition hasBlockLevelChild :: "node list \<Rightarrow> bool" where
  "hasBlockLevelChild cs = list_ex isBlockLevel cs"

fun firstTag :: "token list \<Rightarrow> (string \<times> (string \<times> string) list) option" where
  "firstTag (TStart n a # ts) = Some (n, a)"
| "firstTag (TText s # TStart n a # ts) = Some (n, a)"
| "firstTag ts = None"

definition startsWithBlockElement :: "string \<Rightarrow> bool" where
  "startsWithBlockElement html =
     (case firstTag (tokenize (Data []) html) of
        Some (n, a) \<Rightarrow> n \<in> set blockLevelTags
      | None \<Rightarrow> False)"

text \<open>
  For the proofs about the tree builder: the shape of a frame is what stays of it while
  the element is open; the two ways in which the builder changes a list of children; a
  property that the operations of the builder keep for the changes of a given kind, which
  every step then keeps for a token that makes a change of that kind; a builder holds an element when the element is a child of the root or is the outermost
  open element, and is headed by it when the element is, or will be, the first child of
  the root.
\<close>

definition shape :: "frame \<Rightarrow> string \<times> (string \<times> string) list \<times> bool" where
  "shape f = (fst f, fst (snd f), snd (snd (snd f)))"

definition growing :: "(node list \<Rightarrow> node list) \<Rightarrow> bool" where
  "growing g \<longleftrightarrow> (\<exists>x. g = appendNode x) \<or> (\<exists>s. g = appendText s)"

definition builderInvariant ::
  "((node list \<Rightarrow> node list) \<Rightarrow> bool) \<Rightarrow> (treeBuilder \<Rightarrow> bool) \<Rightarrow> bool" where
  "builderInvariant G P \<longleftrightarrow>
     (\<forall>g c. G g \<longrightarrow> P c \<longrightarrow> P (insertAtCurrent g c) \<and> P (insertFostered g c)) \<and>
     (\<forall>n as. G (appendNode (Element n as []))) \<and>
     (\<forall>n as fo c. P c \<longrightarrow> P (pushElement n as fo c)) \<and>
     (\<forall>c. P c \<longrightarrow> P (pop c))"

fun admits :: "((node list \<Rightarrow> node list) \<Rightarrow> bool) \<Rightarrow> token \<Rightarrow> bool" where
  "admits G (TText s) = G (appendText s)"
| "admits G (TStart n as) = True"
| "admits G (TEnd n) = True"

definition holdsElement :: "string \<Rightarrow> (string \<times> string) list \<Rightarrow> treeBuilder \<Rightarrow> bool" where
  "holdsElement n a c \<longleftrightarrow>
     (\<exists>cs. Element n a cs \<in> set (snd c)) \<or>
     (fst c \<noteq> [] \<and> shape (last (fst c)) = (n, a, False))"

definition headedBy :: "string \<Rightarrow> (string \<times> string) list \<Rightarrow> treeBuilder \<Rightarrow> bool" where
  "headedBy n a c \<longleftrightarrow>
     (\<exists>cs r. snd c = Element n a cs # r) \<or>
     (snd c = [] \<and> fst c \<noteq> [] \<and> shape (last (fst c)) = (n, a, False))"






text \<open>
  A table has a row and a column when it has a row and no row is without cells; it is
  rectangular when its rows have the same number of cells.  A table is active, for the
  reader of the document, when it carries a handle.
\<close>

definition hasRowAndColumn :: "table \<Rightarrow> bool" where
  "hasRowAndColumn tb \<longleftrightarrow> rows tb \<noteq> [] \<and> (\<forall>cells \<in> set (rows tb). cells \<noteq> [])"

definition rectangular :: "table \<Rightarrow> bool" where
  "rectangular tb \<longleftrightarrow> (\<forall>cells \<in> set (rows tb). length cells = length (hd (rows tb)))"

definition carriesHandles :: "table \<Rightarrow> bool" where
  "carriesHandles tb \<longleftrightarrow> handles tb \<noteq> []"

text \<open>
  The number of characters in a list of text nodes, and the order of two paths that part
  at some place: the first goes through an earlier child there.
\<close>

definition textLength :: "(path \<times> string) list \<Rightarrow> nat" where
  "textLength nodes = sum_list (map (\<lambda>n. length (snd n)) nodes)"

definition precedes :: "path \<Rightarrow> path \<Rightarrow> bool" where
  "precedes p q \<longleftrightarrow> (\<exists>c a b r1 r2. p = c @ a # r1 \<and> q = c @ b # r2 \<and> a < b)"


section \<open>Properties of the history manager\<close>

lemma innerHTML_fields [simp]:
  "innerHTML (st\<lparr>editorHistory := h\<rparr>) = innerHTML st"
  "innerHTML (st\<lparr>historyIndex := i\<rparr>) = innerHTML st"
  "innerHTML (st\<lparr>isPerformingUndoRedo := b\<rparr>) = innerHTML st"
  "innerHTML (st\<lparr>posted := p\<rparr>) = innerHTML st"
  "innerHTML (st\<lparr>timers := t\<rparr>) = innerHTML st"
  "innerHTML (st\<lparr>liveSelection := l\<rparr>) = innerHTML st"
  "innerHTML (st\<lparr>now := n\<rparr>) = innerHTML st"
  by (simp_all add: innerHTML_def)

lemma userEdit_at_end:
  assumes "\<not> isPerformingUndoRedo st"
  shows "historyIndex (userEdit e st) = int (length (editorHistory (userEdit e st))) - 1"
    and "editorHistory (userEdit e st) \<noteq> []"
    and "content (last (editorHistory (userEdit e st))) = innerHTML (userEdit e st)"
    and "\<not> isPerformingUndoRedo (userEdit e st)"
  using assms
  by (simp_all add: userEdit_def onInput_def postMessage_def set_childNodes_def
      createHistoryEntry_def Let_def split: prod.splits)

lemma edits_flag: "\<not> isPerformingUndoRedo st \<Longrightarrow> \<not> isPerformingUndoRedo (edits es st)"
  by (induction es arbitrary: st) (simp_all add: userEdit_at_end)

lemma edits_at_end:
  assumes "\<not> isPerformingUndoRedo st" and "es \<noteq> []"
  shows "historyIndex (edits es st) = int (length (editorHistory (edits es st))) - 1 \<and>
         editorHistory (edits es st) \<noteq> [] \<and>
         content (last (editorHistory (edits es st))) = innerHTML (edits es st)"
  using assms
proof (induction es arbitrary: st)
  case Nil
  then show ?case by simp
next
  case (Cons e es)
  show ?case
  proof (cases "es = []")
    case True
    with Cons.prems show ?thesis by (simp add: userEdit_at_end)
  next
    case False
    with Cons show ?thesis by (simp add: userEdit_at_end)
  qed
qed

lemma customUndo_effect:
  assumes "0 < historyIndex st" and "historyIndex st < int (length (editorHistory st))"
  shows "at_entry (snd (customUndo st))"
    and "editorHistory (snd (customUndo st)) = editorHistory st"
    and "historyIndex (snd (customUndo st)) = historyIndex st - 1"
  using assms
  by (auto simp add: at_entry_def customUndo_def Let_def at_index_def set_innerHTML_def
      postMessage_def setTimeout_def split: option.splits)

lemma customUndo_at_entry:
  assumes "at_entry st"
  shows "at_entry (snd (customUndo st))"
    and "editorHistory (snd (customUndo st)) = editorHistory st"
    and "historyIndex (snd (customUndo st)) = max 0 (historyIndex st - 1)"
  using assms
  by (auto simp add: at_entry_def customUndo_def Let_def at_index_def set_innerHTML_def
      postMessage_def setTimeout_def split: option.splits)

lemma customRedo_at_entry:
  assumes "at_entry st"
  shows "at_entry (snd (customRedo st))"
    and "editorHistory (snd (customRedo st)) = editorHistory st"
    and "historyIndex (snd (customRedo st)) =
           min (int (length (editorHistory st)) - 1) (historyIndex st + 1)"
  using assms
  by (auto simp add: at_entry_def customRedo_def Let_def at_index_def set_innerHTML_def
      postMessage_def setTimeout_def split: option.splits)

lemma undos_at_entry:
  "at_entry st \<Longrightarrow>
   at_entry (undos n st) \<and> editorHistory (undos n st) = editorHistory st \<and>
   historyIndex (undos n st) = max 0 (historyIndex st - int n)"
proof (induction n arbitrary: st)
  case 0
  then show ?case by (simp add: at_entry_def)
next
  case (Suc n)
  from Suc.prems have a: "at_entry (snd (customUndo st))" by (rule customUndo_at_entry)
  from Suc.IH [OF a] customUndo_at_entry(2,3) [OF Suc.prems] show ?case by auto
qed

lemma redos_at_entry:
  "at_entry st \<Longrightarrow>
   at_entry (redos n st) \<and> editorHistory (redos n st) = editorHistory st \<and>
   historyIndex (redos n st) =
     min (int (length (editorHistory st)) - 1) (historyIndex st + int n)"
proof (induction n arbitrary: st)
  case 0
  then show ?case by (simp add: at_entry_def)
next
  case (Suc n)
  from Suc.prems have a: "at_entry (snd (customRedo st))" by (rule customRedo_at_entry)
  from Suc.IH [OF a] customRedo_at_entry(2,3) [OF Suc.prems] show ?case by auto
qed

lemma undos_at_first: "historyIndex st \<le> 0 \<Longrightarrow> undos n st = st"
  by (induction n) (auto simp add: customUndo_def)

lemma redos_at_last:
  "historyIndex st \<ge> int (length (editorHistory st)) - 1 \<Longrightarrow> redos n st = st"
  by (induction n) (auto simp add: customRedo_def)

text \<open>
  C1, the round trip as claimed fails.  Two keystrokes in the cell of an active table
  record two entries whose markup has the two handles inside the \<^verbatim>\<open>table\<close> element.  One
  undo and one redo assign the markup of the last entry to \<^verbatim>\<open>innerHTML\<close>; the parser
  puts the two \<^verbatim>\<open>div\<close> elements in front of the table, so the document is not the one
  that the edits had left and its content reads differently.
\<close>

theorem undo_redo_moves_table_handles:
  "\<not> isPerformingUndoRedo initial \<and> (1::nat) \<le> length table_edits \<and>
   childNodes (edits table_edits initial) =
     [Element ''table'' tableAttributes [tableBody ''ab'', resizeHandle, dragHandle],
      Element ''p'' [] []] \<and>
   childNodes (redos 1 (undos 1 (edits table_edits initial))) =
     [resizeHandle, dragHandle, Element ''table'' tableAttributes [tableBody ''ab''],
      Element ''p'' [] []] \<and>
   innerHTML (redos 1 (undos 1 (edits table_edits initial))) \<noteq>
     innerHTML (edits table_edits initial)"
  by code_simp

text \<open>
  C1.  Start from any state in which no undo or redo is being performed.  After a run of
  user edits, each of which records one history entry, \<open>N\<close> calls of \<^verbatim>\<open>customUndo\<close>
  followed by \<open>N\<close> calls of \<^verbatim>\<open>customRedo\<close>, with \<open>N\<close> at most the number of edits and
  nothing in between, leave the content that the parser and the serialiser make of the
  content after the edits: the serialisation of the tree parsed from it.  The content is
  the very one after the edits when no undo took effect (\<open>N\<close> is \<open>0\<close> or the history has
  a single entry), and, by the equation, whenever the content after the edits is markup
  that parsing and serialising give back unchanged.
\<close>

theorem undo_redo_reparses:
  assumes "\<not> isPerformingUndoRedo st" and "N \<le> length es"
  shows "innerHTML (redos N (undos N (edits es st))) =
           (if N = 0 \<or> length (editorHistory (edits es st)) \<le> 1
            then innerHTML (edits es st)
            else serialize (parse (innerHTML (edits es st))))"
proof (cases "N = 0")
  case True
  then show ?thesis by simp
next
  case False
  then obtain M where N: "N = Suc M" by (cases N) auto
  with assms(2) have ne: "es \<noteq> []" by auto
  let ?s = "edits es st"
  from edits_at_end [OF assms(1) ne]
  have e: "historyIndex ?s = int (length (editorHistory ?s)) - 1"
    "editorHistory ?s \<noteq> []" "content (last (editorHistory ?s)) = innerHTML ?s"
    by simp_all
  show ?thesis
  proof (cases "length (editorHistory ?s) \<le> 1")
    case True
    with e(1) show ?thesis by (simp add: undos_at_first redos_at_last)
  next
    case long: False
    with e(1) have p: "0 < historyIndex ?s" "historyIndex ?s < int (length (editorHistory ?s))"
      by simp_all
    let ?u = "snd (customUndo ?s)"
    from customUndo_effect [OF p]
    have u1: "at_entry ?u" "editorHistory ?u = editorHistory ?s"
      "historyIndex ?u = historyIndex ?s - 1" by simp_all
    from undos_at_entry [OF u1(1), of M] u1(2,3)
    have u: "at_entry (undos N ?s)" "editorHistory (undos N ?s) = editorHistory ?s"
      "historyIndex (undos N ?s) = max 0 (historyIndex ?s - 1 - int M)"
      by (simp_all add: N)
    from redos_at_entry [OF u(1), of N] u(2,3) e(1,2) N
    have r: "at_entry (redos N (undos N ?s))"
      "editorHistory (redos N (undos N ?s)) = editorHistory ?s"
      "historyIndex (redos N (undos N ?s)) = int (length (editorHistory ?s)) - 1"
      by auto
    from r e long False show ?thesis
      by (simp add: at_entry_def innerHTML_def last_conv_nth nat_diff_distrib')
  qed
qed

text \<open>
  The example: \<open>a\<close> and \<open>b\<close> typed into one block, two calls of undo and two of redo.
\<close>

theorem undo_redo_reparses_witness:
  "\<not> isPerformingUndoRedo initial \<and> (2::nat) \<le> length two_edits \<and>
   innerHTML (edits two_edits initial) = ''<div>ab</div>'' \<and>
   innerHTML (redos 2 (undos 2 (edits two_edits initial))) = ''<div>ab</div>''"
proof -
  have h1: "\<not> isPerformingUndoRedo initial" by (simp add: initial_def)
  have h2: "(2::nat) \<le> length two_edits" by (simp add: two_edits_def)
  have e: "innerHTML (edits two_edits initial) = ''<div>ab</div>''" by code_simp
  have l: "length (editorHistory (edits two_edits initial)) = 2" by code_simp
  have p: "serialize (parse ''<div>ab</div>'') = ''<div>ab</div>''" by code_simp
  from undo_redo_reparses [OF h1 h2] e l p h1 h2 show ?thesis by simp
qed

text \<open>
  C2.  The history of the freshly loaded script satisfies the invariant
  \<open>0 \<le> index < length\<close> whenever it has entries, and \<^verbatim>\<open>createHistoryEntry\<close>,
  \<^verbatim>\<open>customUndo\<close> and \<^verbatim>\<open>customRedo\<close> keep it.  When an entry is recorded (no undo or
  redo being performed) while the index is before the last entry, the new history is the
  old one cut after the current entry, followed by the new entry, and the index is on the
  new last entry.
\<close>

theorem history_invariant:
  "history_ok initial \<and>
   (\<forall>st. history_ok st \<longrightarrow>
      history_ok (createHistoryEntry st) \<and>
      history_ok (snd (customUndo st)) \<and>
      history_ok (snd (customRedo st)) \<and>
      (\<not> isPerformingUndoRedo st \<and> historyIndex st < int (length (editorHistory st)) - 1 \<longrightarrow>
         editorHistory (createHistoryEntry st) =
           take (nat (historyIndex st) + 1) (editorHistory st) @
           [\<lparr>content = innerHTML st, selection = saveSelection st, timestamp = now st\<rparr>] \<and>
         historyIndex (createHistoryEntry st) =
           int (length (editorHistory (createHistoryEntry st))) - 1))"
proof (intro conjI allI impI)
  show "history_ok initial" by (simp add: history_ok_def initial_def)
next
  fix st assume ok: "history_ok st"
  show "history_ok (createHistoryEntry st)"
    using ok by (simp add: history_ok_def createHistoryEntry_def Let_def)
  show "history_ok (snd (customUndo st))"
    using ok
    by (auto simp add: history_ok_def customUndo_def Let_def at_index_def set_innerHTML_def
        postMessage_def setTimeout_def split: option.splits)
  show "history_ok (snd (customRedo st))"
    using ok
    by (auto simp add: history_ok_def customRedo_def Let_def at_index_def set_innerHTML_def
        postMessage_def setTimeout_def split: option.splits)
  assume b: "\<not> isPerformingUndoRedo st \<and> historyIndex st < int (length (editorHistory st)) - 1"
  then have ne: "editorHistory st \<noteq> [] \<longrightarrow> 0 \<le> historyIndex st"
    using ok by (simp add: history_ok_def)
  show "editorHistory (createHistoryEntry st) =
           take (nat (historyIndex st) + 1) (editorHistory st) @
           [\<lparr>content = innerHTML st, selection = saveSelection st, timestamp = now st\<rparr>]"
    using b ne
    by (cases "editorHistory st = []") (auto simp add: createHistoryEntry_def Let_def nat_add_distrib)
  show "historyIndex (createHistoryEntry st) =
           int (length (editorHistory (createHistoryEntry st))) - 1"
    using b by (simp add: createHistoryEntry_def Let_def)
qed

text \<open>
  The example: two edits, one undo, the flag reset by its timer; the history holds the
  markups \<open><div>a</div>\<close> and \<open><div>ab</div>\<close> with the index on the first.  Recording
  then drops the second entry.
\<close>

theorem history_invariant_witness:
  "history_ok ((undos 1 (edits two_edits initial))\<lparr>isPerformingUndoRedo := False\<rparr>) \<and>
   map content (editorHistory (undos 1 (edits two_edits initial))) =
     [''<div>a</div>'', ''<div>ab</div>''] \<and>
   historyIndex (undos 1 (edits two_edits initial)) = 0 \<and>
   map content (editorHistory (createHistoryEntry
     ((undos 1 (edits two_edits initial))\<lparr>isPerformingUndoRedo := False\<rparr>))) =
     [''<div>a</div>'', ''<div>a</div>''] \<and>
   historyIndex (createHistoryEntry
     ((undos 1 (edits two_edits initial))\<lparr>isPerformingUndoRedo := False\<rparr>)) = 1 \<and>
   history_ok (createHistoryEntry
     ((undos 1 (edits two_edits initial))\<lparr>isPerformingUndoRedo := False\<rparr>))"
proof -
  let ?s = "(undos 1 (edits two_edits initial))\<lparr>isPerformingUndoRedo := False\<rparr>"
  have h: "map content (editorHistory (undos 1 (edits two_edits initial))) =
     [''<div>a</div>'', ''<div>ab</div>'']" by code_simp
  have i: "historyIndex (undos 1 (edits two_edits initial)) = 0" by code_simp
  have ok: "history_ok ?s"
    using i by (simp add: history_ok_def)
  have len: "length (editorHistory ?s) = 2"
    using arg_cong [OF h, of length] by simp
  have b: "\<not> isPerformingUndoRedo ?s \<and> historyIndex ?s < int (length (editorHistory ?s)) - 1"
    using i len by simp
  have c: "innerHTML ?s = ''<div>a</div>''" by code_simp
  from history_invariant ok b
  have r: "history_ok (createHistoryEntry ?s)"
    "editorHistory (createHistoryEntry ?s) =
       take (nat (historyIndex ?s) + 1) (editorHistory ?s) @
       [\<lparr>content = innerHTML ?s, selection = saveSelection ?s, timestamp = now ?s\<rparr>]"
    "historyIndex (createHistoryEntry ?s) = int (length (editorHistory (createHistoryEntry ?s))) - 1"
    by blast+
  have m: "map content (editorHistory (createHistoryEntry ?s)) = [''<div>a</div>'', ''<div>a</div>'']"
    using arg_cong [OF r(2), of "map content"] h i c by (simp add: take_map [symmetric])
  have n: "historyIndex (createHistoryEntry ?s) = 1"
    using r(3) arg_cong [OF m, of length] by simp
  from ok h i m n r(1) show ?thesis by blast
qed

text \<open>
  C3.  When the history is empty or the index is at most \<open>0\<close>, \<^verbatim>\<open>customUndo\<close> returns
  false and the whole state, the document, the entries and the index with it, is the one
  before the call; no branch of the call throws.
\<close>

theorem customUndo_at_boundary:
  assumes "length (editorHistory st) = 0 \<or> historyIndex st \<le> 0"
  shows "customUndo st = (False, st)"
  using assms by (auto simp add: customUndo_def)

theorem customUndo_at_boundary_witness:
  "(length (editorHistory initial) = 0 \<or> historyIndex initial \<le> 0) \<and>
   customUndo initial = (False, initial) \<and>
   historyIndex (edits [([Element ''div'' [] [Text ''a'']], None, 1)] initial) = 0 \<and>
   fst (customUndo (edits [([Element ''div'' [] [Text ''a'']], None, 1)] initial)) = False \<and>
   innerHTML (snd (customUndo (edits [([Element ''div'' [] [Text ''a'']], None, 1)] initial)))
     = ''<div>a</div>''"
proof -
  let ?s = "edits [([Element ''div'' [] [Text ''a'']], None, 1)] initial"
  have h0: "length (editorHistory initial) = 0 \<or> historyIndex initial \<le> 0"
    by (simp add: initial_def)
  have i: "historyIndex ?s = 0" by code_simp
  then have h1: "length (editorHistory ?s) = 0 \<or> historyIndex ?s \<le> 0" by simp
  have c: "innerHTML ?s = ''<div>a</div>''" by code_simp
  from customUndo_at_boundary [OF h0] customUndo_at_boundary [OF h1] h0 i c
  show ?thesis by simp
qed

section \<open>Properties of the search engine\<close>

text \<open>
  C10.  \<^verbatim>\<open>replaceSelection\<close> returns false and leaves the whole state as it is (no
  history entry, no change of the document, nothing posted, nothing scheduled) when the
  list of search results is empty or the index of the current match is negative.
\<close>

theorem replaceSelection_guard:
  assumes "length (searchResults st) = 0 \<or> searchIndex st < 0"
  shows "replaceSelection replaceText st = (Returned False, st)"
  using assms by (auto simp add: replaceSelection_def)

theorem replaceSelection_guard_witness:
  "(length (searchResults initial) = 0 \<or> searchIndex initial < 0) \<and>
   replaceSelection ''x'' initial = (Returned False, initial) \<and>
   fst (replaceSelection ''x''
          (snd (searchAndHighlight ''ab'' (set_innerHTML ''<div>aabb</div>'' initial))))
     = Returned True"
proof -
  have h: "length (searchResults initial) = 0 \<or> searchIndex initial < 0"
    by (simp add: initial_def)
  have t: "fst (replaceSelection ''x''
                  (snd (searchAndHighlight ''ab'' (set_innerHTML ''<div>aabb</div>'' initial))))
     = Returned True" by code_simp
  from replaceSelection_guard [OF h, of "''x''"] h t show ?thesis by simp
qed

text \<open>
  C5, at the text \<open>aaa\<close> and the search text \<open>aa\<close>.  The scan of line 1672 goes on one
  character after each match and finds the overlapping matches at \<open>0\<close> and \<open>1\<close>, where
  one occurrence is disjoint.  Highlighting the match at \<open>1\<close> leaves the node with \<open>a\<close>;
  for the match at \<open>0\<close> the second \<^verbatim>\<open>splitText\<close> asks for two characters of the one that
  is left and throws.  The call has no result and no current match.
\<close>

theorem searchAndHighlight_overlapping_throws:
  "matchIndices ''aaa'' ''aa'' (indexOf ''aaa'' ''aa'' 0) = [0, 1] \<and>
   countMatches ''aaa'' ''aa'' 0 = 1 \<and>
   fst (searchAndHighlight ''aa'' (set_innerHTML ''<div>aaa</div>'' initial))
     = Threw IndexSizeError \<and>
   searchIndex (snd (searchAndHighlight ''aa'' (set_innerHTML ''<div>aaa</div>'' initial))) = -1"
  by code_simp

section \<open>Properties of the content model\<close>

subsection \<open>What the tree builder keeps\<close>

lemma appendText_keeps: "Element t a cs \<in> set root \<Longrightarrow> Element t a cs \<in> set (appendText s root)"
  by (induction s root rule: appendText.induct) auto

lemma appendText_head:
  "\<exists>r. appendText s (Element t a cs # root) = Element t a cs # r"
  by (cases root) simp_all

lemma growing_keeps:
  "growing g \<Longrightarrow> Element t a cs \<in> set root \<Longrightarrow> Element t a cs \<in> set (g root)"
  by (auto simp add: growing_def appendNode_def appendText_keeps)

lemma growing_head:
  "growing g \<Longrightarrow> \<exists>r. g (Element t a cs # root) = Element t a cs # r"
  using appendText_head by (auto simp add: growing_def appendNode_def)

lemma insertAtCurrent_shape:
  "map shape (fst (insertAtCurrent g c)) = map shape (fst c)"
  by (induction g c rule: insertAtCurrent.induct) (simp_all add: shape_def)

lemma insertAtCurrent_root:
  "snd (insertAtCurrent g c) = (if fst c = [] then g (snd c) else snd c)"
  by (induction g c rule: insertAtCurrent.induct) simp_all

lemma insertBeforeTable_shape:
  "map shape (fst (insertBeforeTable g st root)) = map shape st"
proof (induction st)
  case Nil
  then show ?case by simp
next
  case (Cons f st)
  then show ?case
    using insertAtCurrent_shape [of g "(st, root)"]
    by (simp split: prod.splits) (metis fst_conv)
qed

lemma insertBeforeTable_root:
  "snd (insertBeforeTable g st root) = root \<or> snd (insertBeforeTable g st root) = g root"
proof (induction st)
  case Nil
  then show ?case by simp
next
  case (Cons f st)
  then show ?case
    using insertAtCurrent_root [of g "(st, root)"]
    by (simp split: prod.splits) (metis snd_conv)
qed

lemma insertBeforeTable_below:
  "''table'' \<in> fst ` set st \<Longrightarrow> fst (last st) \<noteq> ''table'' \<Longrightarrow>
   snd (insertBeforeTable g st root) = root"
proof (induction st)
  case Nil
  then show ?case by simp
next
  case (Cons f st)
  show ?case
  proof (cases "fst f = ''table''")
    case True
    with Cons.prems have "st \<noteq> []" by auto
    with True show ?thesis
      using insertAtCurrent_root [of g "(st, root)"]
      by (simp split: prod.splits) (metis snd_conv)
  next
    case False
    with Cons.prems have "''table'' \<in> fst ` set st" "st \<noteq> []" by auto
    with Cons False show ?thesis by (simp split: prod.splits) (metis snd_conv)
  qed
qed

lemma insertFostered_shape:
  "map shape (fst (insertFostered g c)) = map shape (fst c)"
  by (simp add: insertFostered_def insertAtCurrent_shape insertBeforeTable_shape)

lemma insertFostered_root:
  "snd (insertFostered g c) = snd c \<or> snd (insertFostered g c) = g (snd c)"
  using insertBeforeTable_root [of g "fst c" "snd c"]
  by (simp add: insertFostered_def insertAtCurrent_root)

lemma insertFostered_below:
  "fst c \<noteq> [] \<Longrightarrow> fst (last (fst c)) \<noteq> ''table'' \<Longrightarrow> snd (insertFostered g c) = snd c"
  by (simp add: insertFostered_def openTags_def insertAtCurrent_root insertBeforeTable_below)

lemma same_shape_last:
  "map shape st' = map shape st \<Longrightarrow> st \<noteq> [] \<Longrightarrow> st' \<noteq> [] \<and> shape (last st') = shape (last st)"
  by (metis last_map map_is_Nil_conv)

subsection \<open>A property that the operations keep is kept by every step\<close>

lemma builderInvariantD:
  assumes "builderInvariant G P" and "P c"
  shows "G g \<Longrightarrow> P (insertAtCurrent g c)"
    and "G g \<Longrightarrow> P (insertFostered g c)"
    and "P (pushElement n as fo c)"
    and "P (pop c)"
  using assms unfolding builderInvariant_def by blast+

lemma builderInvariant_void: "builderInvariant G P \<Longrightarrow> G (appendNode (Element n as []))"
  unfolding builderInvariant_def by blast

lemma popN_keeps: "builderInvariant G P \<Longrightarrow> P c \<Longrightarrow> P (popN k c)"
  by (induction k arbitrary: c) (simp_all add: builderInvariantD(4))

lemma popUntil_keeps: "builderInvariant G P \<Longrightarrow> P c \<Longrightarrow> P (popUntil ns c)"
  by (simp add: popUntil_def popN_keeps)

lemma popThrough_keeps: "builderInvariant G P \<Longrightarrow> P c \<Longrightarrow> P (popThrough n c)"
  using popUntil_keeps [of G P c "[n]"] by (simp add: popThrough_def builderInvariantD(4))

lemma popAll_keeps: "builderInvariant G P \<Longrightarrow> P c \<Longrightarrow> P (popAll c)"
  by (simp add: popAll_def popN_keeps)

lemma closeP_keeps: "builderInvariant G P \<Longrightarrow> P c \<Longrightarrow> P (closeP c)"
  by (simp add: closeP_def popThrough_keeps)

lemma closeLi_keeps: "builderInvariant G P \<Longrightarrow> P c \<Longrightarrow> P (closeLi c)"
  by (simp add: closeLi_def popThrough_keeps)

lemma growing_appendNode [simp]: "growing (appendNode x)"
  by (auto simp add: growing_def)

lemma growing_appendText [simp]: "growing (appendText s)"
  by (auto simp add: growing_def)

lemma admits_growing [simp]: "admits growing tok"
  by (cases tok) simp_all

lemma insertNode_keeps: "builderInvariant G P \<Longrightarrow> G g \<Longrightarrow> P c \<Longrightarrow> P (insertNode g c)"
  by (simp add: insertNode_def builderInvariantD(1,2))

lemma pushElement_keeps: "builderInvariant G P \<Longrightarrow> P c \<Longrightarrow> P (pushElement n as fo c)"
  by (rule builderInvariantD(3))

lemma insertElement_keeps: "builderInvariant G P \<Longrightarrow> P c \<Longrightarrow> P (insertElement n as c)"
  by (simp add: insertElement_def insertNode_keeps pushElement_keeps builderInvariant_void)

lemma insertCharacters_keeps:
  "builderInvariant G P \<Longrightarrow> G (appendText s) \<Longrightarrow> P c \<Longrightarrow> P (insertCharacters s c)"
  using insertNode_keeps [of G P "appendText s" c]
  by (simp add: insertCharacters_def builderInvariantD(1))

lemma tableStartTag_keeps:
  assumes "builderInvariant G P" and "P c"
  shows "P (tableStartTag n as c)"
proof -
  have u: "\<And>ns. P (popUntil ns c)" using assms by (rule popUntil_keeps)
  have p: "\<And>m bs fo d. P d \<Longrightarrow> P (pushElement m bs fo d)"
    using assms(1) by (rule pushElement_keeps)
  have i: "\<And>d. P d \<Longrightarrow> P (insertAtCurrent (appendNode (Element n as [])) d)"
    using assms(1) by (simp add: builderInvariantD(1) builderInvariant_void)
  show ?thesis
    unfolding tableStartTag_def Let_def by (intro p i u | simp only: if_split | intro conjI impI)+
qed

lemma startTag_keeps:
  assumes "builderInvariant G P" and "P c"
  shows "P (startTag n as c)"
proof -
  have 1: "P (closeP c)" "P (closeLi c)" "P (closeP (closeLi c))"
    using assms by (simp_all add: closeP_keeps closeLi_keeps)
  have 2: "P (popThrough ''table'' c)" using assms by (rule popThrough_keeps)
  show ?thesis
    using assms 1 2
    by (simp add: startTag_def Let_def tableStartTag_keeps insertElement_keeps)
qed

lemma endTag_keeps:
  assumes "builderInvariant G P" and "P c"
  shows "P (endTag n c)"
proof -
  have 1: "P (pop (insertElement ''p'' [] c))"
    using assms insertElement_keeps [of G P c "''p''" "[]"] by (simp add: builderInvariantD(4))
  show ?thesis
    using assms 1 by (simp add: endTag_def popThrough_keeps insertElement_keeps)
qed

lemma treeStep_keeps:
  "builderInvariant G P \<Longrightarrow> admits G tok \<Longrightarrow> P c \<Longrightarrow> P (treeStep tok c)"
  by (cases tok) (simp_all add: insertCharacters_keeps startTag_keeps endTag_keeps)

lemma pop_length: "length (fst (pop c)) = length (fst c) - 1"
proof (cases c)
  case (Pair st root)
  show ?thesis
  proof (cases st)
    case Nil
    with Pair show ?thesis by simp
  next
    case (Cons f fs)
    obtain t a cs fo where f: "f = (t, a, cs, fo)" by (cases f)
    from insertAtCurrent_shape [of "appendNode (Element t a cs)" "(fs, root)"]
      insertFostered_shape [of "appendNode (Element t a cs)" "(fs, root)"]
    have "length (fst (insertAtCurrent (appendNode (Element t a cs)) (fs, root))) = length fs"
      "length (fst (insertFostered (appendNode (Element t a cs)) (fs, root))) = length fs"
      by (metis fst_conv length_map)+
    with Pair Cons f show ?thesis by simp
  qed
qed

lemma popN_length: "length (fst (popN k c)) = length (fst c) - k"
  by (induction k arbitrary: c) (simp_all add: pop_length)

lemma popAll_empty: "fst (popAll c) = []"
  using popN_length [of "length (fst c)" c] by (simp add: popAll_def)

lemma build_keeps:
  "builderInvariant G P \<Longrightarrow> list_all (admits G) ts \<Longrightarrow> P c \<Longrightarrow>
   \<exists>d. P d \<and> fst d = [] \<and> build ts c = snd d"
proof (induction ts arbitrary: c)
  case Nil
  then have "P (popAll c)" by (simp add: popAll_keeps)
  then show ?case using popAll_empty [of c] by (intro exI [of _ "popAll c"]) simp
next
  case (Cons tok ts)
  from Cons.prems have "P (treeStep tok c)" by (simp add: treeStep_keeps)
  from Cons.IH [OF Cons.prems(1) _ this] Cons.prems(2) show ?case by simp
qed

lemma list_all_growing [simp]: "list_all (admits growing) ts"
  by (simp add: list_all_iff)

subsection \<open>The two properties\<close>

lemma holdsElement_transfer:
  assumes "holdsElement n a c" and "map shape (fst d) = map shape (fst c)"
    and "snd d = snd c \<or> (\<exists>g. growing g \<and> snd d = g (snd c))"
  shows "holdsElement n a d"
proof -
  from assms(1) consider
    (a) cs where "Element n a cs \<in> set (snd c)"
    | (b) "fst c \<noteq> []" "shape (last (fst c)) = (n, a, False)"
    by (auto simp add: holdsElement_def)
  then show ?thesis
  proof cases
    case a
    with assms(3) have "Element n a cs \<in> set (snd d)" by (auto simp add: growing_keeps)
    then show ?thesis unfolding holdsElement_def by blast
  next
    case b
    with assms(2) same_shape_last [of "fst d" "fst c"] show ?thesis
      unfolding holdsElement_def by simp
  qed
qed

lemma holdsElement_invariant: "builderInvariant growing (holdsElement n a)"
  unfolding builderInvariant_def
proof (intro conjI allI impI)
  fix g c assume g: "growing g" and h: "holdsElement n a c"
  show "holdsElement n a (insertAtCurrent g c)"
    using h insertAtCurrent_shape [of g c] 
  proof (rule holdsElement_transfer)
    show "snd (insertAtCurrent g c) = snd c \<or>
          (\<exists>g'. growing g' \<and> snd (insertAtCurrent g c) = g' (snd c))"
      using g by (auto simp add: insertAtCurrent_root)
  qed
  show "holdsElement n a (insertFostered g c)"
    using h insertFostered_shape [of g c] 
  proof (rule holdsElement_transfer)
    show "snd (insertFostered g c) = snd c \<or>
          (\<exists>g'. growing g' \<and> snd (insertFostered g c) = g' (snd c))"
      using g insertFostered_root [of g c] by auto
  qed
next
  fix m as show "growing (appendNode (Element m as []))" by simp
next
  fix m as fo c assume "holdsElement n a c"
  then show "holdsElement n a (pushElement m as fo c)"
    by (auto simp add: holdsElement_def pushElement_def)
next
  fix c assume h: "holdsElement n a c"
  obtain st root where c: "c = (st, root)" by (cases c)
  show "holdsElement n a (pop c)"
  proof (cases st)
    case Nil
    with h c show ?thesis by simp
  next
    case (Cons f fs)
    obtain t b cs fo where f: "f = (t, b, cs, fo)" by (cases f)
    let ?g = "appendNode (Element t b cs)"
    let ?d = "if fo then insertFostered ?g (fs, root) else insertAtCurrent ?g (fs, root)"
    have p: "pop c = ?d" using c Cons f by simp
    have sh: "map shape (fst ?d) = map shape fs"
      using insertAtCurrent_shape [of ?g "(fs, root)"] insertFostered_shape [of ?g "(fs, root)"]
      by simp
    have rt: "snd ?d = root \<or> snd ?d = ?g root"
      using insertAtCurrent_root [of ?g "(fs, root)"] insertFostered_root [of ?g "(fs, root)"]
      by (simp split: if_splits)
    from h c Cons consider
      (a) cs' where "Element n a cs' \<in> set root"
      | (b) "fs \<noteq> []" "shape (last fs) = (n, a, False)"
      | (c) "fs = []" "shape f = (n, a, False)"
      by (auto simp add: holdsElement_def split: if_splits)
    then show ?thesis
    proof cases
      case a
      with rt have "Element n a cs' \<in> set (snd ?d)"
        by (auto simp add: appendNode_def)
      then show ?thesis unfolding p holdsElement_def by blast
    next
      case b
      with sh same_shape_last [of "fst ?d" fs] show ?thesis
        unfolding p holdsElement_def by simp
    next
      case c
      with f show ?thesis
        unfolding p holdsElement_def by (auto simp add: shape_def appendNode_def)
    qed
  qed
qed

lemma headedBy_transfer:
  assumes "headedBy n a c" and "map shape (fst d) = map shape (fst c)"
    and "snd d = snd c \<or> (snd c \<noteq> [] \<and> (\<exists>g. growing g \<and> snd d = g (snd c)))"
  shows "headedBy n a d"
proof -
  from assms(1) consider
    (a) cs r where "snd c = Element n a cs # r"
    | (b) "snd c = []" "fst c \<noteq> []" "shape (last (fst c)) = (n, a, False)"
    by (auto simp add: headedBy_def)
  then show ?thesis
  proof cases
    case a
    with assms(3) growing_head [of _ n a cs r] have "\<exists>r'. snd d = Element n a cs # r'"
      by auto
    then show ?thesis unfolding headedBy_def by blast
  next
    case b
    with assms(2,3) same_shape_last [of "fst d" "fst c"] show ?thesis
      unfolding headedBy_def by simp
  qed
qed

lemma headedBy_invariant:
  assumes "n \<noteq> ''table''"
  shows "builderInvariant growing (headedBy n a)"
  unfolding builderInvariant_def
proof (intro conjI allI impI)
  fix g c assume g: "growing g" and h: "headedBy n a c"
  from h have e: "fst c = [] \<Longrightarrow> snd c \<noteq> []" by (auto simp add: headedBy_def)
  show "headedBy n a (insertAtCurrent g c)"
    using h insertAtCurrent_shape [of g c] 
  proof (rule headedBy_transfer)
    show "snd (insertAtCurrent g c) = snd c \<or>
          (snd c \<noteq> [] \<and> (\<exists>g'. growing g' \<and> snd (insertAtCurrent g c) = g' (snd c)))"
      using g e by (auto simp add: insertAtCurrent_root)
  qed
  show "headedBy n a (insertFostered g c)"
    using h insertFostered_shape [of g c] 
  proof (rule headedBy_transfer)
    show "snd (insertFostered g c) = snd c \<or>
          (snd c \<noteq> [] \<and> (\<exists>g'. growing g' \<and> snd (insertFostered g c) = g' (snd c)))"
    proof (cases "snd c = []")
      case False
      with g insertFostered_root [of g c] show ?thesis by auto
    next
      case True
      with h have "fst c \<noteq> []" "shape (last (fst c)) = (n, a, False)"
        by (auto simp add: headedBy_def)
      with assms have "fst c \<noteq> []" "fst (last (fst c)) \<noteq> ''table''" by (simp_all add: shape_def)
      then show ?thesis by (simp add: insertFostered_below)
    qed
  qed
next
  fix m as show "growing (appendNode (Element m as []))" by simp
next
  fix m as fo c assume "headedBy n a c"
  then show "headedBy n a (pushElement m as fo c)"
    by (auto simp add: headedBy_def pushElement_def)
next
  fix c assume h: "headedBy n a c"
  obtain st root where c: "c = (st, root)" by (cases c)
  show "headedBy n a (pop c)"
  proof (cases st)
    case Nil
    with h c show ?thesis by simp
  next
    case (Cons f fs)
    obtain t b cs fo where f: "f = (t, b, cs, fo)" by (cases f)
    let ?g = "appendNode (Element t b cs)"
    let ?d = "if fo then insertFostered ?g (fs, root) else insertAtCurrent ?g (fs, root)"
    have p: "pop c = ?d" using c Cons f by simp
    have sh: "map shape (fst ?d) = map shape fs"
      using insertAtCurrent_shape [of ?g "(fs, root)"] insertFostered_shape [of ?g "(fs, root)"]
      by simp
    have rt: "snd ?d = root \<or> snd ?d = ?g root"
      using insertAtCurrent_root [of ?g "(fs, root)"] insertFostered_root [of ?g "(fs, root)"]
      by (simp split: if_splits)
    from h c Cons consider
      (a) cs' r where "root = Element n a cs' # r"
      | (b) "root = []" "fs \<noteq> []" "shape (last fs) = (n, a, False)"
      | (c) "root = []" "fs = []" "shape f = (n, a, False)"
      by (auto simp add: headedBy_def split: if_splits)
    then show ?thesis
    proof cases
      case a
      with rt have "\<exists>r'. snd ?d = Element n a cs' # r'"
        by (auto simp add: appendNode_def)
      then show ?thesis unfolding p headedBy_def by blast
    next
      case b
      from b(3) assms have "fst (last fs) \<noteq> ''table''" by (simp add: shape_def)
      with b(2) have "snd ?d = root"
        using insertAtCurrent_root [of ?g "(fs, root)"] insertFostered_below [of "(fs, root)" ?g]
        by simp
      with b sh same_shape_last [of "fst ?d" fs] show ?thesis
        unfolding p headedBy_def by simp
    next
      case c
      with f show ?thesis
        unfolding p headedBy_def by (auto simp add: shape_def appendNode_def)
    qed
  qed
qed

subsection \<open>The element that the markup starts with\<close>

lemma startTag_first:
  assumes "n \<in> set blockLevelTags"
  shows "holdsElement n a (startTag n a ([], root))"
proof -
  from assms have t: "n \<notin> set tableStructure"
    by (auto simp add: blockLevelTags_def tableStructure_def)
  have f: "\<not> fostering ([], root)" by (simp add: fostering_def currentIs_def)
  have c: "closeLi ([], root) = ([], root)" "closeP ([], root) = ([], root)"
    by (simp_all add: closeLi_def closeP_def)
  show ?thesis
    using t f c
    by (auto simp add: startTag_def Let_def insertElement_def insertNode_def pushElement_def
        holdsElement_def shape_def appendNode_def)
qed

lemma parse_first_tag:
  assumes "firstTag (tokenize (Data []) html) = Some (n, a)" and "n \<in> set blockLevelTags"
  shows "\<exists>cs. Element n a cs \<in> set (parse html)"
proof -
  from assms(1) obtain ts root
    where "parse html = build ts (startTag n a ([], root))"
    by (rule firstTag.elims)
      (auto simp add: parse_def insertCharacters_def fostering_def currentIs_def insertNode_def)
  moreover
  from build_keeps [OF holdsElement_invariant list_all_growing startTag_first [OF assms(2)], of a ts root]
  obtain d where "holdsElement n a d" "fst d = []" "build ts (startTag n a ([], root)) = snd d"
    by blast
  ultimately show ?thesis by (auto simp add: holdsElement_def)
qed

lemma block_child:
  "Element n a cs \<in> set ks \<Longrightarrow> n \<in> set blockLevelTags \<Longrightarrow> hasBlockLevelChild ks"
  unfolding hasBlockLevelChild_def list_ex_iff by (rule bexI [of _ "Element n a cs"]) simp_all

lemma wrapUnwrappedText_block:
  assumes "hasBlockLevelChild cs"
  shows "hasBlockLevelChild (wrapUnwrappedText cs)"
proof -
  from assms obtain x where x: "x \<in> set cs" "isBlockLevel x"
    by (auto simp add: hasBlockLevelChild_def list_ex_iff)
  from x(2) obtain t a ks where e: "x = Element t a ks" "t \<in> set blockLevelTags"
    by (cases x) auto
  with x(1) have "Element t a ks \<in> set (wrapUnwrappedText cs)"
    by (force simp add: wrapUnwrappedText_def image_iff)
  then show ?thesis using e(2) by (rule block_child)
qed

lemma tokenize_div:
  "tokenize (Data []) (''<div>'' @ rest) = TStart ''div'' [] # tokenize (Data []) rest"
  by (simp add: emitText_def isAlpha_def toLower_def isWhiteSpace_def)

lemma wrapped_first_child:
  "\<exists>cs r. parse (''<div>'' @ html @ ''</div>'') = Element ''div'' [] cs # r"
proof -
  have s: "startTag ''div'' [] ([], []) = ([(''div'', [], [], False)], [])" by code_simp
  have h: "headedBy ''div'' [] ([(''div'', [], [], False)], [])"
    by (simp add: headedBy_def shape_def)
  have "parse (''<div>'' @ html @ ''</div>'') =
        build (tokenize (Data []) (html @ ''</div>'')) ([(''div'', [], [], False)], [])"
    unfolding parse_def tokenize_div using s by simp
  moreover
  have "''div'' \<noteq> ''table''" by simp
  from build_keeps [OF headedBy_invariant [OF this] list_all_growing h]
  obtain d where "headedBy ''div'' [] d" "fst d = []"
    "build (tokenize (Data []) (html @ ''</div>'')) ([(''div'', [], [], False)], []) = snd d"
    by blast
  ultimately show ?thesis by (auto simp add: headedBy_def)
qed

subsection \<open>C9\<close>

text \<open>
  C9 fails for markup that starts with a tag which only shares a prefix with a block tag:
  \<open><progress>\<close> starts with \<open><p\<close>, is installed as it is, and the root has the inline
  element as its only child, before and after the deferred wrapping of stray text.
\<close>

theorem setContent_inline_root_child:
  "trim ''<progress></progress>'' \<noteq> [] \<and>
   startsWith (trim ''<progress></progress>'') ''<p'' \<and>
   childNodes (setContent ''<progress></progress>'' initial) = [Element ''progress'' [] []] \<and>
   \<not> hasBlockLevelChild (childNodes (setContent ''<progress></progress>'' initial)) \<and>
   timers (setContent ''<progress></progress>'' initial) = [(0, WrapUnwrappedText)] \<and>
   \<not> hasBlockLevelChild (childNodes (fire 0 (setContent ''<progress></progress>'' initial)))"
  by code_simp

text \<open>
  C9 as amended, about the tree of the document.  Empty or white-space markup makes the
  document the one empty block \<open><div><br></div>\<close>.  Markup whose trimmed form starts
  with none of the six prefixes \<open><div\<close>, \<open><p\<close>, \<open><h\<close>, \<open><ul\<close>, \<open><ol\<close>, \<open><table\<close>
  is parsed inside \<open><div>\<close> and \<open></div>\<close>, and the first child of the root is then that
  \<open>div\<close>.  Markup that starts with one of the prefixes is parsed as it is.  The root has
  a block-level child, before and after the deferred wrapping of stray text, in the first
  two cases and whenever the first tag of the markup is the start tag of a block-level
  element, as it is for a \<open>div\<close>, a \<open>p\<close>, a heading, a list or a table; what is left out
  is markup that passes a prefix test without starting with such a tag.
\<close>

theorem setContent_installs:
  "(trim html = [] \<longrightarrow>
      childNodes (setContent html st) = [Element ''div'' [] [Element ''br'' [] []]]) \<and>
   (trim html \<noteq> [] \<and> \<not> startsWithBlockTag html \<longrightarrow>
      childNodes (setContent html st) = parse (''<div>'' @ html @ ''</div>'') \<and>
      (\<exists>cs r. childNodes (setContent html st) = Element ''div'' [] cs # r)) \<and>
   (trim html \<noteq> [] \<and> startsWithBlockTag html \<longrightarrow>
      childNodes (setContent html st) = parse html) \<and>
   (trim html = [] \<or> \<not> startsWithBlockTag html \<or> startsWithBlockElement html \<longrightarrow>
      hasBlockLevelChild (childNodes (setContent html st)) \<and>
      hasBlockLevelChild (wrapUnwrappedText (childNodes (setContent html st))))"
proof -
  let ?d = "childNodes (setContent html st)"
  have p: "parse ''<div><br></div>'' = [Element ''div'' [] [Element ''br'' [] []]]" by code_simp
  have n: "html = [] \<Longrightarrow> trim html = []" by (simp add: trim_def)
  have dv: "''div'' \<in> set blockLevelTags" by (simp add: blockLevelTags_def)
  have 1: "trim html = [] \<Longrightarrow> ?d = [Element ''div'' [] [Element ''br'' [] []]]"
    using p by (simp add: setContent_def set_innerHTML_def)
  have 2: "trim html \<noteq> [] \<Longrightarrow> \<not> startsWithBlockTag html \<Longrightarrow>
           ?d = parse (''<div>'' @ html @ ''</div>'')"
    using n by (auto simp add: setContent_def set_innerHTML_def setTimeout_def Let_def)
  have 3: "trim html \<noteq> [] \<Longrightarrow> startsWithBlockTag html \<Longrightarrow> ?d = parse html"
    using n by (auto simp add: setContent_def set_innerHTML_def setTimeout_def Let_def)
  have 4: "hasBlockLevelChild ?d"
    if "trim html = [] \<or> \<not> startsWithBlockTag html \<or> startsWithBlockElement html"
  proof (cases "trim html = []")
    case True
    from 1 [OF True] dv show ?thesis by (simp add: hasBlockLevelChild_def)
  next
    case ne: False
    show ?thesis
    proof (cases "startsWithBlockTag html")
      case False
      from wrapped_first_child [of html] 2 [OF ne False] dv show ?thesis
        by (auto simp add: hasBlockLevelChild_def)
    next
      case True
      with that ne have "startsWithBlockElement html" by simp
      then obtain m a where "firstTag (tokenize (Data []) html) = Some (m, a)"
        "m \<in> set blockLevelTags"
        by (auto simp add: startsWithBlockElement_def split: option.splits)
      from parse_first_tag [OF this] 3 [OF ne True] this(2) show ?thesis
        by (auto intro: block_child)
    qed
  qed
  from 1 2 3 4 wrapped_first_child [of html] wrapUnwrappedText_block [of ?d]
  show ?thesis by (intro conjI impI) auto
qed

text \<open>The examples: white space, text without a tag, and a paragraph.\<close>

theorem setContent_installs_witness:
  "trim ''  '' = [] \<and>
   childNodes (setContent ''  '' initial) = [Element ''div'' [] [Element ''br'' [] []]] \<and>
   trim ''hello'' \<noteq> [] \<and> \<not> startsWithBlockTag ''hello'' \<and>
   childNodes (setContent ''hello'' initial) = [Element ''div'' [] [Text ''hello'']] \<and>
   hasBlockLevelChild (childNodes (setContent ''hello'' initial)) \<and>
   trim ''<p>x</p>'' \<noteq> [] \<and> startsWithBlockTag ''<p>x</p>'' \<and>
   startsWithBlockElement ''<p>x</p>'' \<and>
   childNodes (setContent ''<p>x</p>'' initial) = [Element ''p'' [] [Text ''x'']] \<and>
   hasBlockLevelChild (childNodes (setContent ''<p>x</p>'' initial)) \<and>
   hasBlockLevelChild (wrapUnwrappedText (childNodes (setContent ''<p>x</p>'' initial)))"
proof -
  have a: "trim ''  '' = []" by code_simp
  have b: "trim ''hello'' \<noteq> [] \<and> \<not> startsWithBlockTag ''hello''" by code_simp
  have c: "trim ''<p>x</p>'' \<noteq> [] \<and> startsWithBlockTag ''<p>x</p>'' \<and>
           startsWithBlockElement ''<p>x</p>''" by code_simp
  have d: "parse ''<div>hello</div>'' = [Element ''div'' [] [Text ''hello'']]" by code_simp
  have e: "parse ''<p>x</p>'' = [Element ''p'' [] [Text ''x'']]" by code_simp
  from setContent_installs [of "''  ''" initial] a
  have 1: "childNodes (setContent ''  '' initial) = [Element ''div'' [] [Element ''br'' [] []]]"
    by blast
  from setContent_installs [of "''hello''" initial] b
  have "childNodes (setContent ''hello'' initial) = parse (''<div>'' @ ''hello'' @ ''</div>'')"
    and 2: "hasBlockLevelChild (childNodes (setContent ''hello'' initial))"
    by blast+
  with d have w2: "childNodes (setContent ''hello'' initial) = [Element ''div'' [] [Text ''hello'']]"
    by simp
  from setContent_installs [of "''<p>x</p>''" initial] c
  have "childNodes (setContent ''<p>x</p>'' initial) = parse ''<p>x</p>''"
    and 3: "hasBlockLevelChild (childNodes (setContent ''<p>x</p>'' initial))"
    "hasBlockLevelChild (wrapUnwrappedText (childNodes (setContent ''<p>x</p>'' initial)))"
    by blast+
  with e have w3: "childNodes (setContent ''<p>x</p>'' initial) = [Element ''p'' [] [Text ''x'']]"
    by simp
  from a b c 1 2 w2 3 w3 show ?thesis by blast
qed

section \<open>Replacing every occurrence\<close>

subsection \<open>The replacement of a character in the markup\<close>

lemma str_includes_single: "str_includes s [c] \<longleftrightarrow> c \<in> set s"
  by (induction s) auto






subsection \<open>The text that the tokenizer emits\<close>




subsection \<open>The text of the tree that the parser builds\<close>

lemma textContents_append [simp]: "textContents (a @ b) = textContents a @ textContents b"
  by (induction a) simp_all

lemma textContents_appendText [simp]: "textContents (appendText s cs) = textContents cs @ s"
  by (induction s cs rule: appendText.induct) simp_all









subsection \<open>The search in a tree without the character\<close>

lemma textContents_joinText [simp]: "textContents (joinText ns) = textContents ns"
  by (induction ns rule: joinText.induct) (auto split: list.splits node.splits)

lemma textContent_normalizeNode:
  "textContent (normalizeNode n) = textContent n"
  "textContents (map normalizeNode ns) = textContents ns"
  by (induction n and ns rule: textContent_textContents.induct) simp_all

lemma textContents_normalize [simp]: "textContents (normalize cs) = textContents cs"
  by (simp add: normalize_def textContent_normalizeNode)





subsection \<open>C4\<close>




section \<open>Properties of the table controller\<close>

lemma deleteRow_single: "length (rows tb) = 1 \<Longrightarrow> deleteRow ri tb = tb"
  by (simp add: deleteRow_def)

lemma deleteColumn_single:
  "\<forall>cells \<in> set (rows tb). length cells = 1 \<Longrightarrow> deleteColumn ci tb = tb"
  by (cases "rows tb") (simp_all add: deleteColumn_def)

lemma set_deleteAt: "set (deleteAt i xs) \<subseteq> set xs"
  unfolding deleteAt_def by (auto dest: in_set_takeD in_set_dropD)

lemma length_deleteAt: "i < length xs \<Longrightarrow> length (deleteAt i xs) = length xs - 1"
  unfolding deleteAt_def by auto

lemma deleteRow_keeps: "hasRowAndColumn tb \<Longrightarrow> hasRowAndColumn (deleteRow ri tb)"
proof -
  assume h: "hasRowAndColumn tb"
  show ?thesis
  proof (cases "deleteRow ri tb = tb")
    case True
    with h show ?thesis by simp
  next
    case False
    then obtain i where i: "i < length (rows tb)" "1 < length (rows tb)"
      "deleteRow ri tb = tb\<lparr>rows := deleteAt i (rows tb)\<rparr>"
      by (auto simp add: deleteRow_def Let_def split: if_splits) (metis nat_less_iff)+
    from i(1,2) have "deleteAt i (rows tb) \<noteq> []"
      using length_deleteAt [of i "rows tb"] by auto
    with h i(3) set_deleteAt [of i "rows tb"] show ?thesis
      by (auto simp add: hasRowAndColumn_def)
  qed
qed

lemma deleteColumn_last_keeps:
  "hasRowAndColumn tb \<Longrightarrow> hasRowAndColumn (deleteColumn None tb)"
  by (auto simp add: hasRowAndColumn_def deleteColumn_def Let_def deleteAt_def)

lemma deleteColumn_rect_keeps:
  assumes "hasRowAndColumn tb" "rectangular tb"
  shows "hasRowAndColumn (deleteColumn ci tb) \<and> rectangular (deleteColumn ci tb)"
proof (cases "rows tb")
  case Nil
  with assms show ?thesis by (simp add: hasRowAndColumn_def)
next
  case (Cons r rs)
  with assms have len: "\<forall>cells \<in> set (r # rs). length cells = length r"
    by (simp add: rectangular_def)
  show ?thesis
    using Cons len assms(1)
    by (auto simp add: hasRowAndColumn_def rectangular_def deleteColumn_def Let_def deleteAt_def)
qed

lemma tables_updateTable:
  "tables (updateTable t f st) = map (\<lambda>tb. if tid tb = t then f tb else tb) (tables st)"
  by (simp add: updateTable_def)

lemma tables_deleteTableRow:
  "tables (deleteTableRow e ri st) =
     (case resolveTable e st of None \<Rightarrow> tables st
      | Some t \<Rightarrow> map (\<lambda>tb. if tid tb = t then deleteRow ri tb else tb) (tables st))"
  by (simp add: deleteTableRow_def notify_def tables_updateTable split: option.splits)

lemma tables_deleteTableColumn:
  "tables (deleteTableColumn e ci st) =
     (case resolveTable e st of None \<Rightarrow> tables st
      | Some t \<Rightarrow> map (\<lambda>tb. if tid tb = t then deleteColumn ci tb else tb) (tables st))"
  by (simp add: deleteTableColumn_def notify_def tables_updateTable split: option.splits)

text \<open>
  C6.  When the table that the call resolves to has exactly one row, \<^verbatim>\<open>deleteTableRow\<close>
  leaves every table of the document as it is, whatever index is given; when each of its
  rows has exactly one cell, \<^verbatim>\<open>deleteTableColumn\<close> does.  A document in which every
  table has a row and every row a cell stays so under \<^verbatim>\<open>deleteTableRow\<close> with any
  arguments and under \<^verbatim>\<open>deleteTableColumn\<close> without an index, the way the host calls it;
  with an index it stays so for rectangular tables, which stay rectangular.
\<close>

theorem delete_last_row_or_column_refused:
  "(resolveTable e st = Some t \<and> (\<forall>tb \<in> set (tables st). tid tb = t \<longrightarrow> length (rows tb) = 1)
      \<longrightarrow> tables (deleteTableRow e ri st) = tables st) \<and>
   (resolveTable e st = Some t \<and>
    (\<forall>tb \<in> set (tables st). tid tb = t \<longrightarrow> (\<forall>cells \<in> set (rows tb). length cells = 1))
      \<longrightarrow> tables (deleteTableColumn e ci st) = tables st) \<and>
   ((\<forall>tb \<in> set (tables st). hasRowAndColumn tb)
      \<longrightarrow> (\<forall>tb \<in> set (tables (deleteTableRow e ri st)). hasRowAndColumn tb) \<and>
          (\<forall>tb \<in> set (tables (deleteTableColumn e None st)). hasRowAndColumn tb)) \<and>
   ((\<forall>tb \<in> set (tables st). hasRowAndColumn tb \<and> rectangular tb)
      \<longrightarrow> (\<forall>tb \<in> set (tables (deleteTableColumn e ci st)).
             hasRowAndColumn tb \<and> rectangular tb))"
proof (intro conjI impI)
  assume "resolveTable e st = Some t \<and>
          (\<forall>tb \<in> set (tables st). tid tb = t \<longrightarrow> length (rows tb) = 1)"
  then show "tables (deleteTableRow e ri st) = tables st"
    by (auto simp add: tables_deleteTableRow deleteRow_single intro!: map_idI)
next
  assume "resolveTable e st = Some t \<and>
    (\<forall>tb \<in> set (tables st). tid tb = t \<longrightarrow> (\<forall>cells \<in> set (rows tb). length cells = 1))"
  then show "tables (deleteTableColumn e ci st) = tables st"
    by (auto simp add: tables_deleteTableColumn deleteColumn_single intro!: map_idI)
next
  assume "\<forall>tb \<in> set (tables st). hasRowAndColumn tb"
  then show "\<forall>tb \<in> set (tables (deleteTableRow e ri st)). hasRowAndColumn tb"
    by (auto simp add: tables_deleteTableRow deleteRow_keeps split: option.splits)
next
  assume "\<forall>tb \<in> set (tables st). hasRowAndColumn tb"
  then show "\<forall>tb \<in> set (tables (deleteTableColumn e None st)). hasRowAndColumn tb"
    by (auto simp add: tables_deleteTableColumn deleteColumn_last_keeps split: option.splits)
next
  assume "\<forall>tb \<in> set (tables st). hasRowAndColumn tb \<and> rectangular tb"
  then show "\<forall>tb \<in> set (tables (deleteTableColumn e ci st)). hasRowAndColumn tb \<and> rectangular tb"
    by (auto simp add: tables_deleteTableColumn deleteColumn_rect_keeps split: option.splits)
qed

theorem delete_last_row_or_column_refused_witness:
  "resolveTable None (insertTableDeferred (insertTable 1 1 0 noTables)) = Some 1 \<and>
   map rows (tables (insertTableDeferred (insertTable 1 1 0 noTables))) = [[['' '']]] \<and>
   map rows (tables (deleteTableRow None None (insertTableDeferred (insertTable 1 1 0 noTables))))
     = [[['' '']]] \<and>
   map rows (tables (deleteTableColumn None None (insertTableDeferred (insertTable 1 1 0 noTables))))
     = [[['' '']]] \<and>
   map rows (tables (deleteTableRow None None (insertTableDeferred (insertTable 2 2 0 noTables))))
     = [[['' '', '' '']]] \<and>
   map rows (tables (deleteTableColumn None (Some 0) (insertTableDeferred (insertTable 2 2 0 noTables))))
     = [[['' ''], ['' '']]] \<and>
   list_all (\<lambda>tb. hasRowAndColumn tb \<and> rectangular tb)
     (tables (deleteTableColumn None (Some 0) (insertTableDeferred (insertTable 2 2 0 noTables)))) \<and>
   list_all hasRowAndColumn
     (tables (deleteTableRow None None (insertTableDeferred (insertTable 2 2 0 noTables)))) \<and>
   list_all hasRowAndColumn
     (tables (deleteTableColumn None None (insertTableDeferred (insertTable 2 2 0 noTables))))"
proof -
  let ?one = "insertTableDeferred (insertTable 1 1 0 noTables)"
  let ?two = "insertTableDeferred (insertTable 2 2 0 noTables)"
  have r: "resolveTable None ?one = Some 1" by code_simp
  have rows1: "map rows (tables ?one) = [[['' '']]]" by code_simp
  have h1: "\<forall>tb \<in> set (tables ?one). tid tb = 1 \<longrightarrow> length (rows tb) = 1" by code_simp
  have h2: "\<forall>tb \<in> set (tables ?one). tid tb = 1 \<longrightarrow> (\<forall>cells \<in> set (rows tb). length cells = 1)"
    by code_simp
  have h3: "\<forall>tb \<in> set (tables ?two). hasRowAndColumn tb" by code_simp
  have h4: "\<forall>tb \<in> set (tables ?two). hasRowAndColumn tb \<and> rectangular tb" by code_simp
  have e1: "map rows (tables (deleteTableRow None None ?two)) = [[['' '', '' '']]]" by code_simp
  have e2: "map rows (tables (deleteTableColumn None (Some 0) ?two)) = [[['' ''], ['' '']]]"
    by code_simp
  from delete_last_row_or_column_refused [of None ?one 1 None None] r h1 h2
  have a: "tables (deleteTableRow None None ?one) = tables ?one"
    and b: "tables (deleteTableColumn None None ?one) = tables ?one" by blast+
  from delete_last_row_or_column_refused [of None ?two 1 None "Some 0"] h3 h4
  have c: "\<forall>tb \<in> set (tables (deleteTableRow None None ?two)). hasRowAndColumn tb"
    and d: "\<forall>tb \<in> set (tables (deleteTableColumn None None ?two)). hasRowAndColumn tb"
    and f: "\<forall>tb \<in> set (tables (deleteTableColumn None (Some 0) ?two)).
              hasRowAndColumn tb \<and> rectangular tb" by blast+
  from r rows1 a b c d f e1 e2 show ?thesis by (simp add: list_all_iff)
qed

text \<open>
  C8, at two calls of \<^verbatim>\<open>insertTable\<close> in a row, each followed by its deferred part.
  \<^verbatim>\<open>activateTable\<close> removes no handle of another table, and the deferred part of
  \<^verbatim>\<open>insertTable\<close> does not call \<^verbatim>\<open>deactivateAllTables\<close> first, as the click listener
  does: the first table keeps its two handles when the second gets its own.  Had the
  second table been activated by a click, one table would carry handles.
\<close>

theorem insertTable_leaves_two_active:
  "map handles (tables (insertTableDeferred (insertTable 1 1 1
      (insertTableDeferred (insertTable 1 1 0 noTables))))) =
     [[''table-handle'', ''table-drag-handle''], [''table-handle'', ''table-drag-handle'']] \<and>
   activeTable (insertTableDeferred (insertTable 1 1 1
      (insertTableDeferred (insertTable 1 1 0 noTables)))) = Some 2 \<and>
   length (filter carriesHandles (tables (insertTableDeferred (insertTable 1 1 1
      (insertTableDeferred (insertTable 1 1 0 noTables)))))) = 2 \<and>
   length (filter carriesHandles (tables (onClick (Some 2) (insertTable 1 1 1
      (insertTableDeferred (insertTable 1 1 0 noTables)))))) = 1"
  by code_simp


section \<open>Properties of the selection codec\<close>

lemma textLength_simps [simp]:
  "textLength [] = 0"
  "textLength (x # xs) = length (snd x) + textLength xs"
  "textLength (xs @ ys) = textLength xs + textLength ys"
  by (simp_all add: textLength_def)

lemma textNodes_total:
  "textLength (textNodes p n) = length (textContent n)"
  "textLength (textNodesFrom p i cs) = length (textContents cs)"
  by (induction p n and p i cs rule: textNodes_textNodesFrom.induct) simp_all

lemma nodeAt_Cons: "nodeAt (n # ns) (Suc j # r) = nodeAt ns (j # r)"
  by (cases r) simp_all

lemma nodeAt_in: "nodeAt (Element t a ks # ns) (0 # j # r) = nodeAt ks (j # r)"
  by simp

lemma lengthBefore_Cons:
  "lengthBefore (n # ns) (Suc j # r) k = length (textContent n) + lengthBefore ns (j # r) k"
  by simp

lemma append_eq_mid:
  "xs @ ys = pre @ x # post \<Longrightarrow>
   (\<exists>us. xs = pre @ x # us \<and> post = us @ ys) \<or> (\<exists>us. pre = xs @ us \<and> ys = us @ x # post)"
  by (auto simp add: append_eq_append_conv2 append_eq_Cons_conv)

lemma walker_entry:
  "textNodes p n = pre @ (q, s) # post \<Longrightarrow>
     (case n of
        Text d \<Rightarrow> q = p \<and> d = s \<and> pre = []
      | Element t a ks \<Rightarrow>
          (\<exists>j r. q = p @ j # r \<and> nodeAt ks (j # r) = Some (Text s) \<and>
                 (\<forall>k. lengthBefore ks (j # r) k = textLength pre + min k (length s))))"
  "textNodesFrom p i cs = pre @ (q, s) # post \<Longrightarrow>
     (\<exists>j r. q = p @ (i + j) # r \<and> nodeAt cs (j # r) = Some (Text s) \<and>
            (\<forall>k. lengthBefore cs (j # r) k = textLength pre + min k (length s)))"
proof (induction p n and p i cs arbitrary: pre q s post and pre q s post
       rule: textNodes_textNodesFrom.induct)
  case (1 p d)
  then show ?case by (simp add: Cons_eq_append_conv)
next
  case (2 p t a cs)
  from "2.IH" [of pre q s post] "2.prems" show ?case by auto
next
  case (3 p i)
  then show ?case by simp
next
  case (4 p i n ns)
  from "4.prems" have "textNodes (p @ [i]) n @ textNodesFrom p (Suc i) ns = pre @ (q, s) # post"
    by simp
  from append_eq_mid [OF this] show ?case
  proof
    assume "\<exists>us. textNodes (p @ [i]) n = pre @ (q, s) # us \<and> post = us @ textNodesFrom p (Suc i) ns"
    then obtain us where us: "textNodes (p @ [i]) n = pre @ (q, s) # us" by blast
    note ih = "4.IH"(1) [OF us]
    show ?thesis
    proof (cases n)
      case (Text d)
      with ih have "q = p @ [i]" "d = s" "pre = []" by simp_all
      with Text show ?thesis
        by (intro exI [of _ 0] exI [of _ "[]"]) simp
    next
      case (Element t a ks)
      with ih obtain j r where jr: "q = (p @ [i]) @ j # r" "nodeAt ks (j # r) = Some (Text s)"
        "\<forall>k. lengthBefore ks (j # r) k = textLength pre + min k (length s)" by auto
      with Element show ?thesis
        by (intro exI [of _ 0] exI [of _ "j # r"]) simp
    qed
  next
    assume "\<exists>us. pre = textNodes (p @ [i]) n @ us \<and> textNodesFrom p (Suc i) ns = us @ (q, s) # post"
    then obtain us where us: "pre = textNodes (p @ [i]) n @ us"
      "textNodesFrom p (Suc i) ns = us @ (q, s) # post" by blast
    from "4.IH"(2) [OF us(2)] obtain j r where jr: "q = p @ (Suc i + j) # r"
      "nodeAt ns (j # r) = Some (Text s)"
      "\<forall>k. lengthBefore ns (j # r) k = textLength us + min k (length s)" by blast
    show ?thesis
      using jr us(1) textNodes_total(1) [of "p @ [i]" n]
      by (intro exI [of _ "Suc j"] exI [of _ r]) (simp add: nodeAt_Cons del: nodeAt.simps lengthBefore.simps add: lengthBefore_Cons)
  qed
qed


lemma walkToOffset_found:
  "walkToOffset nodes cur off = Some (q, k) \<Longrightarrow> cur \<le> off \<Longrightarrow>
   \<exists>pre s post. nodes = pre @ (q, s) # post \<and> k \<le> length s \<and>
                 cur + textLength pre + k = off"
proof (induction nodes arbitrary: cur)
  case Nil
  then show ?case by simp
next
  case (Cons x nodes)
  obtain p d where x: "x = (p, d)" by (cases x)
  show ?case
  proof (cases "off \<le> cur + length d")
    case True
    with Cons.prems x have "q = p" "k = off - cur" by simp_all
    with True Cons.prems(2) x show ?thesis
      by (intro exI [of _ "[]"] exI [of _ d] exI [of _ nodes]) simp
  next
    case False
    with Cons.prems x have w: "walkToOffset nodes (cur + length d) off = Some (q, k)" by simp
    from False have "cur + length d \<le> off" by simp
    from Cons.IH [OF w this] obtain pre s post where
      "nodes = pre @ (q, s) # post" "k \<le> length s" "cur + length d + textLength pre + k = off"
      by blast
    with x show ?thesis
      by (intro exI [of _ "(p, d) # pre"] exI [of _ s] exI [of _ post]) simp
  qed
qed

lemma walkToOffset_exists:
  "nodes \<noteq> [] \<Longrightarrow> off \<le> cur + textLength nodes \<Longrightarrow> walkToOffset nodes cur off \<noteq> None"
proof (induction nodes arbitrary: cur)
  case Nil
  then show ?case by simp
next
  case (Cons x nodes)
  obtain p d where x: "x = (p, d)" by (cases x)
  show ?case
  proof (cases "nodes = []")
    case True
    with Cons.prems x show ?thesis by simp
  next
    case False
    from Cons.IH [OF False, of "cur + length d"] Cons.prems x show ?thesis by simp
  qed
qed

lemma walkToOffset_none: "walkToOffset [] cur off = None"
  by simp


lemma pathLess_prefix: "pathLess (c @ u) (c @ v) = pathLess u v"
  by (induction c) simp_all

lemma pathLess_irrefl: "\<not> pathLess p p"
  by (induction p) simp_all

lemma precedes_pathLess:
  "precedes p q \<Longrightarrow> pathLess (p @ x) (q @ y) \<and> \<not> pathLess (q @ y) (p @ x)"
  by (auto simp add: precedes_def pathLess_prefix)

lemma pathLess_last: "pathLess (p @ [a]) (p @ [b]) = (a < b)"
  using pathLess_prefix [of p "[a]" "[b]"] by simp

lemma walker_paths:
  "(q, s) \<in> set (textNodes p n) \<Longrightarrow> \<exists>r. q = p @ r"
  "(q, s) \<in> set (textNodesFrom p i cs) \<Longrightarrow> \<exists>j r. q = p @ (i + j) # r"
proof -
  assume "(q, s) \<in> set (textNodes p n)"
  then obtain pre post where "textNodes p n = pre @ (q, s) # post"
    by (auto simp add: in_set_conv_decomp)
  from walker_entry(1) [OF this] show "\<exists>r. q = p @ r"
    by (cases n) auto
next
  assume "(q, s) \<in> set (textNodesFrom p i cs)"
  then obtain pre post where "textNodesFrom p i cs = pre @ (q, s) # post"
    by (auto simp add: in_set_conv_decomp)
  from walker_entry(2) [OF this] show "\<exists>j r. q = p @ (i + j) # r" by blast
qed

lemma walker_sorted:
  "sorted_wrt precedes (map fst (textNodes p n))"
  "sorted_wrt precedes (map fst (textNodesFrom p i cs))"
proof (induction p n and p i cs rule: textNodes_textNodesFrom.induct)
  case (4 p i n ns)
  have "precedes x y" if x: "x \<in> fst ` set (textNodes (p @ [i]) n)"
    and y: "y \<in> fst ` set (textNodesFrom p (Suc i) ns)" for x y
  proof -
    from x walker_paths(1) obtain r where "x = (p @ [i]) @ r" by fastforce
    moreover from y walker_paths(2) obtain j r' where "y = p @ (Suc i + j) # r'" by fastforce
    ultimately show ?thesis
      unfolding precedes_def
      by (intro exI [of _ p] exI [of _ i] exI [of _ "Suc i + j"] exI [of _ r] exI [of _ r']) simp
  qed
  with 4 show ?case by (simp add: sorted_wrt_append)
qed simp_all

lemma walkToOffset_monotone:
  assumes "sorted_wrt precedes (map fst nodes)"
    and "walkToOffset nodes cur off1 = Some (p1, k1)"
    and "walkToOffset nodes cur off2 = Some (p2, k2)"
    and "cur \<le> off1" and "off1 \<le> off2"
  shows "(p1 = p2 \<and> k1 \<le> k2) \<or> precedes p1 p2"
  using assms
proof (induction nodes arbitrary: cur)
  case Nil
  then show ?case by simp
next
  case (Cons x nodes)
  obtain p d where x: "x = (p, d)" by (cases x)
  show ?case
  proof (cases "off2 \<le> cur + length d")
    case True
    with Cons.prems x show ?thesis by auto
  next
    case False
    with Cons.prems x have w2: "walkToOffset nodes (cur + length d) off2 = Some (p2, k2)"
      by simp
    show ?thesis
    proof (cases "off1 \<le> cur + length d")
      case True
      with Cons.prems x have p1: "p1 = p" by simp
      from False have "cur + length d \<le> off2" by simp
      from walkToOffset_found [OF w2 this] have "p2 \<in> set (map fst nodes)" by force
      with Cons.prems(1) x p1 show ?thesis by auto
    next
      case False
      with Cons.prems x have w1: "walkToOffset nodes (cur + length d) off1 = Some (p1, k1)"
        by simp
      from Cons.prems(1) have s: "sorted_wrt precedes (map fst nodes)" by simp
      from False have "cur + length d \<le> off1" by simp
      from Cons.IH [OF s w1 w2 this Cons.prems(5)] show ?thesis .
    qed
  qed
qed

lemma text_child_walker: "Text s \<in> set cs \<Longrightarrow> textNodesFrom p i cs \<noteq> []"
  by (induction cs arbitrary: i) auto


lemma position_valid:
  assumes "off \<le> length (textContents root)"
  shows "\<exists>p k n. getNodeAndOffsetAtCharacterOffset root off = Some (p, k) \<and>
           nodeLength root p = Some n \<and> k \<le> n \<and> lengthBefore root p k = off \<and>
           (walker root = [] \<longrightarrow> p = [] \<and> k = length root) \<and>
           (walker root \<noteq> [] \<longrightarrow> walkToOffset (walker root) 0 off = Some (p, k))"
proof (cases "walker root = []")
  case True
  with textNodes_total(2) [of "[]" 0 root] have total: "length (textContents root) = 0"
    by (simp add: walker_def)
  have "\<not> (\<exists>s. last root = Text s)" if "root \<noteq> []"
  proof
    assume "\<exists>s. last root = Text s"
    then obtain s where "last root = Text s" ..
    with that have "Text s \<in> set root" by (metis last_in_set)
    from text_child_walker [OF this, of "[]" 0] True show False by (simp add: walker_def)
  qed
  then have "getNodeAndOffsetAtCharacterOffset root off = Some ([], length root)"
    using True by (cases "last root") (auto simp add: getNodeAndOffsetAtCharacterOffset_def)
  with True total assms show ?thesis by (simp add: nodeLength_def)
next
  case False
  from textNodes_total(2) [of "[]" 0 root] assms
  have "off \<le> 0 + textLength (walker root)" by (simp add: walker_def)
  from walkToOffset_exists [OF False this]
  obtain p k where w: "walkToOffset (walker root) 0 off = Some (p, k)" by auto
  from walkToOffset_found [OF w] obtain pre s post where
    d: "walker root = pre @ (p, s) # post" "k \<le> length s" "textLength pre + k = off" by auto
  from walker_entry(2) [of "[]" 0 root pre p s post] d(1)
  obtain j r where jr: "p = j # r" "nodeAt root (j # r) = Some (Text s)"
    "\<forall>k. lengthBefore root (j # r) k = textLength pre + min k (length s)"
    by (auto simp add: walker_def)
  from jr(1,2) have n: "nodeLength root p = Some (length s)" by (simp add: nodeLength_def)
  from jr(1,3) d(2,3) have l: "lengthBefore root p k = off" by (simp add: min_absorb1)
  from w have "getNodeAndOffsetAtCharacterOffset root off = Some (p, k)"
    by (simp add: getNodeAndOffsetAtCharacterOffset_def)
  with n l d(2) w False show ?thesis by blast
qed

text \<open>
  C7.  \<^verbatim>\<open>restoreSelection\<close> returns false for a null selection and leaves the state.  For
  every other selection, whatever its offsets, it returns true and sets a range, no call
  throwing: the end of the range is the point whose character offset is the end offset
  clamped to the length of the text, the start is the point of the clamped start offset
  (of the clamped end offset when the start offset is the greater).  In a document
  without text nodes both points are the fall-back, the end of the root.
\<close>

theorem restoreSelection_clamps:
  "restoreSelection None st = (False, st) \<and>
   (\<exists>r. restoreSelection (Some sel) st = (True, st\<lparr>liveSelection := Some r\<rparr>) \<and>
        lengthBefore (childNodes st) (endContainer r) (endOffset r) =
          min (sel_end sel) (length (textContents (childNodes st))) \<and>
        lengthBefore (childNodes st) (startContainer r) (startOffset r) =
          min (min (sel_start sel) (sel_end sel)) (length (textContents (childNodes st))) \<and>
        (walker (childNodes st) = [] \<longrightarrow>
           r = \<lparr>startContainer = [], startOffset = length (childNodes st),
                endContainer = [], endOffset = length (childNodes st)\<rparr>))"
proof
  show "restoreSelection None st = (False, st)" by (simp add: restoreSelection_def)
next
  let ?root = "childNodes st"
  let ?T = "length (textContents ?root)"
  let ?so = "min (sel_start sel) ?T"
  let ?eo = "min (sel_end sel) ?T"
  from position_valid [of ?so ?root] obtain p1 k1 n1 where
    S: "getNodeAndOffsetAtCharacterOffset ?root ?so = Some (p1, k1)"
      "nodeLength ?root p1 = Some n1" "k1 \<le> n1" "lengthBefore ?root p1 k1 = ?so"
      "walker ?root = [] \<longrightarrow> p1 = [] \<and> k1 = length ?root"
      "walker ?root \<noteq> [] \<longrightarrow> walkToOffset (walker ?root) 0 ?so = Some (p1, k1)"
    by (metis min.cobounded2)
  from position_valid [of ?eo ?root] obtain p2 k2 n2 where
    E: "getNodeAndOffsetAtCharacterOffset ?root ?eo = Some (p2, k2)"
      "nodeLength ?root p2 = Some n2" "k2 \<le> n2" "lengthBefore ?root p2 k2 = ?eo"
      "walker ?root = [] \<longrightarrow> p2 = [] \<and> k2 = length ?root"
      "walker ?root \<noteq> [] \<longrightarrow> walkToOffset (walker ?root) 0 ?eo = Some (p2, k2)"
    by (metis min.cobounded2)
  let ?rSE = "\<lparr>startContainer = p1, startOffset = k1, endContainer = p2, endOffset = k2\<rparr>"
  let ?rEE = "\<lparr>startContainer = p2, startOffset = k2, endContainer = p2, endOffset = k2\<rparr>"
  let ?r = "if pointBefore (p2, k2) (p1, k1) then ?rEE else ?rSE"
  have res: "restoreSelection (Some sel) st = (True, st\<lparr>liveSelection := Some ?r\<rparr>)"
    using S(1,2,3) E(1,2,3) by (simp add: restoreSelection_def Let_def makeRange_def)
  have sorted: "sorted_wrt precedes (map fst (walker ?root))"
    using walker_sorted(2) [of "[]" 0 ?root] by (simp add: walker_def)
  have order: "if ?so \<le> ?eo then \<not> pointBefore (p2, k2) (p1, k1)
               else pointBefore (p2, k2) (p1, k1) \<or> (p1, k1) = (p2, k2)"
  proof (cases "walker ?root = []")
    case True
    with S(5) E(5) show ?thesis by (simp add: pointBefore_def pathLess_irrefl)
  next
    case False
    with S(6) E(6) have w: "walkToOffset (walker ?root) 0 ?so = Some (p1, k1)"
      "walkToOffset (walker ?root) 0 ?eo = Some (p2, k2)" by simp_all
    show ?thesis
    proof (cases "?so \<le> ?eo")
      case True
      from walkToOffset_monotone [OF sorted w(1) w(2) _ True]
      have "(p1 = p2 \<and> k1 \<le> k2) \<or> precedes p1 p2" by simp
      with True show ?thesis
        using precedes_pathLess [of p1 p2 "[k1]" "[k2]"]
        by (auto simp add: pointBefore_def pathLess_last)
    next
      case False
      then have "?eo \<le> ?so" by linarith
      from walkToOffset_monotone [OF sorted w(2) w(1) _ this]
      have "(p2 = p1 \<and> k2 \<le> k1) \<or> precedes p2 p1" by simp
      with False show ?thesis
        using precedes_pathLess [of p2 p1 "[k2]" "[k1]"]
        by (auto simp add: pointBefore_def pathLess_last)
    qed
  qed
  have e: "lengthBefore ?root (endContainer ?r) (endOffset ?r) = ?eo"
    using E(4) by simp
  have s: "lengthBefore ?root (startContainer ?r) (startOffset ?r) =
             min (min (sel_start sel) (sel_end sel)) ?T"
  proof (cases "?so \<le> ?eo")
    case True
    have m: "min (min (sel_start sel) (sel_end sel)) ?T = ?so" using True by linarith
    from True order have "?r = ?rSE" by simp
    with S(4) m show ?thesis by simp
  next
    case False
    have m: "min (min (sel_start sel) (sel_end sel)) ?T = ?eo" using False by linarith
    from False order have "startContainer ?r = p2 \<and> startOffset ?r = k2" by auto
    with E(4) m show ?thesis by simp
  qed
  have f: "walker ?root = [] \<longrightarrow>
             ?r = \<lparr>startContainer = [], startOffset = length ?root,
                   endContainer = [], endOffset = length ?root\<rparr>"
    using S(5) E(5) by simp
  from res e s f
  show "\<exists>r. restoreSelection (Some sel) st = (True, st\<lparr>liveSelection := Some r\<rparr>) \<and>
        lengthBefore (childNodes st) (endContainer r) (endOffset r) =
          min (sel_end sel) (length (textContents (childNodes st))) \<and>
        lengthBefore (childNodes st) (startContainer r) (startOffset r) =
          min (min (sel_start sel) (sel_end sel)) (length (textContents (childNodes st))) \<and>
        (walker (childNodes st) = [] \<longrightarrow>
           r = \<lparr>startContainer = [], startOffset = length (childNodes st),
                endContainer = [], endOffset = length (childNodes st)\<rparr>)"
    by blast
qed

theorem restoreSelection_clamps_witness:
  "walker (childNodes (setContent [] initial)) = [] \<and>
   restoreSelection (Some \<lparr>sel_start = 3, sel_end = 50, sel_collapsed = False\<rparr>)
       (setContent [] initial) =
     (True, (setContent [] initial)\<lparr>liveSelection :=
        Some \<lparr>startContainer = [], startOffset = 1, endContainer = [], endOffset = 1\<rparr>\<rparr>) \<and>
   childNodes (setContent ''<div>ab</div><p>cd<b>ef</b></p>'' initial) =
     [Element ''div'' [] [Text ''ab''],
      Element ''p'' [] [Text ''cd'', Element ''b'' [] [Text ''ef'']]] \<and>
   liveSelection (snd (restoreSelection
       (Some \<lparr>sel_start = 3, sel_end = 50, sel_collapsed = False\<rparr>)
       (setContent ''<div>ab</div><p>cd<b>ef</b></p>'' initial))) =
     Some \<lparr>startContainer = [1, 0], startOffset = 1, endContainer = [1, 1, 0], endOffset = 2\<rparr>"
proof -
  let ?st = "setContent [] initial"
  let ?sel = "\<lparr>sel_start = 3, sel_end = 50, sel_collapsed = False\<rparr>"
  have w: "walker (childNodes ?st) = []" by code_simp
  have n: "length (childNodes ?st) = 1" by code_simp
  from restoreSelection_clamps [of ?st ?sel] obtain r where
    r: "restoreSelection (Some ?sel) ?st = (True, ?st\<lparr>liveSelection := Some r\<rparr>)"
      "walker (childNodes ?st) = [] \<longrightarrow>
         r = \<lparr>startContainer = [], startOffset = length (childNodes ?st),
              endContainer = [], endOffset = length (childNodes ?st)\<rparr>"
    by blast
  from r(2) w n have "r = \<lparr>startContainer = [], startOffset = 1, endContainer = [], endOffset = 1\<rparr>"
    by simp
  with r(1) have a: "restoreSelection (Some ?sel) ?st =
     (True, ?st\<lparr>liveSelection :=
        Some \<lparr>startContainer = [], startOffset = 1, endContainer = [], endOffset = 1\<rparr>\<rparr>)"
    by simp
  have b: "childNodes (setContent ''<div>ab</div><p>cd<b>ef</b></p>'' initial) =
     [Element ''div'' [] [Text ''ab''],
      Element ''p'' [] [Text ''cd'', Element ''b'' [] [Text ''ef'']]]" by code_simp
  have c: "liveSelection (snd (restoreSelection (Some ?sel)
       (setContent ''<div>ab</div><p>cd<b>ef</b></p>'' initial))) =
     Some \<lparr>startContainer = [1, 0], startOffset = 1, endContainer = [1, 1, 0], endOffset = 2\<rparr>"
    by code_simp
  from w a b c show ?thesis by simp
qed

end
